theory Spec2Isabelle
  imports Main "HOL-Library.Word" "HOL-Library.Monad_Syntax"
begin

unbundle bit_operations_syntax

section \<open>The machine\<close>

text \<open>
  Addresses are integers; \<open>NULL\<close> is 0.  \<open>uint32_t\<close> is \<open>32 word\<close>, \<open>size_t\<close> is
  \<open>64 word\<close>, \<open>int\<close> is the signed reading \<open>sint\<close> of a \<open>32 word\<close>.

  The heap of \<open>mm.c\<close> holds two kinds of objects: the seven \<open>char *\<close> slots of
  \<open>ptr_classes\<close>, read and written only as \<open>ptr_classes[i]\<close>, and 4-byte words, read and
  written only through \<open>GET\<close>/\<open>PUT\<close> (and \<open>GET_I\<close>).  The state keeps them apart:
  \<open>classes\<close> is the content of the slots and \<open>mem\<close> the content of the words.  An access
  that C leaves undefined (a word outside the region obtained from \<open>mem_sbrk\<close>,
  misaligned, or overlapping the slot table; a slot while the table is not inside the
  region) has the value \<open>None\<close>, and so has every function that performs one.  The
  compiled program performs such an access all the same and may carry on: \<open>None\<close> says
  that C leaves the behaviour undefined, not that the call does not return.
\<close>

type_synonym addr = int
type_synonym u32 = "32 word"
type_synonym size_t = "64 word"

record heap =
  mem_start_brk :: addr
  mem_brk :: addr
  mem_max_addr :: addr
  mem :: "addr \<Rightarrow> u32"
  classes :: "nat \<Rightarrow> addr"
  ptr_classes :: addr
  heap_listp :: addr

text \<open>
  Modelled from the spec: the host region primitive \<open>mem_sbrk\<close> (memlib.c is not part of
  the sources).  \<open>extend(n_bytes)\<close> returns the base address of the new tail, or fails
  when the region cannot grow; the failure sentinel is the \<open>(void *)-1\<close> that
  \<open>extend_heap\<close> tests for.  The bytes handed out keep whatever they held.
\<close>

definition mem_sbrk :: "heap \<Rightarrow> nat \<Rightarrow> addr \<times> heap" where
  "mem_sbrk h incr =
     (if mem_brk h + int incr > mem_max_addr h then (- 1, h)
      else (mem_brk h, h\<lparr>mem_brk := mem_brk h + int incr\<rparr>))"

definition word_ok :: "heap \<Rightarrow> addr \<Rightarrow> bool" where
  "word_ok h p \<longleftrightarrow>
     p mod 4 = 0 \<and> mem_start_brk h \<le> p \<and> p + 4 \<le> mem_brk h \<and>
     (p + 4 \<le> ptr_classes h \<or> ptr_classes h + 56 \<le> p)"

definition class_ok :: "heap \<Rightarrow> nat \<Rightarrow> bool" where
  "class_ok h i \<longleftrightarrow>
     i < 7 \<and> ptr_classes h mod 8 = 0 \<and> mem_start_brk h \<le> ptr_classes h \<and>
     ptr_classes h + 56 \<le> mem_brk h"

definition GET :: "heap \<Rightarrow> addr \<Rightarrow> u32 option" where
  "GET h p = (if word_ok h p then Some (mem h p) else None)"

definition PUT :: "heap \<Rightarrow> addr \<Rightarrow> u32 \<Rightarrow> heap option" where
  "PUT h p val = (if word_ok h p then Some (h\<lparr>mem := (mem h)(p := val)\<rparr>) else None)"

definition get_class :: "heap \<Rightarrow> nat \<Rightarrow> addr option" where
  "get_class h i = (if class_ok h i then Some (classes h i) else None)"

definition set_class :: "heap \<Rightarrow> nat \<Rightarrow> addr \<Rightarrow> heap option" where
  "set_class h i p = (if class_ok h i then Some (h\<lparr>classes := (classes h)(i := p)\<rparr>) else None)"

section \<open>The macros\<close>

definition PACK :: "u32 \<Rightarrow> u32 \<Rightarrow> u32" where
  "PACK size' alloc = size' OR alloc"

definition GET_SIZE :: "heap \<Rightarrow> addr \<Rightarrow> u32 option" where
  "GET_SIZE h p = do { w \<leftarrow> GET h p; Some (w AND NOT 7) }"

definition GET_ALLOC :: "heap \<Rightarrow> addr \<Rightarrow> u32 option" where
  "GET_ALLOC h p = do { w \<leftarrow> GET h p; Some (w AND 1) }"

definition HDRP :: "addr \<Rightarrow> addr" where
  "HDRP bp = bp - 4"

definition FTRP :: "heap \<Rightarrow> addr \<Rightarrow> addr option" where
  "FTRP h bp = do { sz \<leftarrow> GET_SIZE h (HDRP bp); Some (bp + uint (sz - 8)) }"

definition NEXT_BLKP :: "heap \<Rightarrow> addr \<Rightarrow> addr option" where
  "NEXT_BLKP h bp = do { sz \<leftarrow> GET_SIZE h (bp - 4); Some (bp + uint sz) }"

definition PREV_BLKP :: "heap \<Rightarrow> addr \<Rightarrow> addr option" where
  "PREV_BLKP h bp = do { sz \<leftarrow> GET_SIZE h (bp - 8); Some (bp - uint sz) }"

definition GET_I :: "heap \<Rightarrow> addr \<Rightarrow> int option" where
  "GET_I h p = do { w \<leftarrow> GET h p; Some (sint w) }"

definition SUCC :: "heap \<Rightarrow> addr \<Rightarrow> addr option" where
  "SUCC h bp = do { d \<leftarrow> GET_I h (bp + 4); Some (bp + d) }"

definition PRED :: "heap \<Rightarrow> addr \<Rightarrow> addr option" where
  "PRED h bp = do { d \<leftarrow> GET_I h bp; Some (bp + d) }"

text \<open>A pointer difference stored by \<open>PUT\<close> is cut to its low 32 bits.\<close>

definition ptrdiff :: "addr \<Rightarrow> addr \<Rightarrow> u32" where
  "ptrdiff p q = word_of_int (p - q)"

section \<open>The free lists\<close>

text \<open>
  \<open>delete_from_class\<close> and \<open>append_to_class\<close> repeat one body for each of the seven
  classes; \<open>delete_in\<close> and \<open>append_in\<close> are that body for class \<open>k\<close>.
\<close>

definition delete_in :: "heap \<Rightarrow> nat \<Rightarrow> addr \<Rightarrow> heap option" where
  "delete_in h k ptr = do {
     c \<leftarrow> get_class h k;
     if ptr = c then do {
       w \<leftarrow> GET h (ptr + 4);
       if w = 0 then set_class h k 0
       else do { s \<leftarrow> SUCC h ptr; set_class h k s }
     } else do {
       w \<leftarrow> GET h (ptr + 4);
       if w = 0 then do { p \<leftarrow> PRED h ptr; PUT h (p + 4) 0 }
       else do {
         p \<leftarrow> PRED h ptr;
         s \<leftarrow> SUCC h ptr;
         h1 \<leftarrow> PUT h (p + 4) (ptrdiff s p);
         s1 \<leftarrow> SUCC h1 ptr;
         p1 \<leftarrow> PRED h1 ptr;
         PUT h1 s1 (ptrdiff p1 s1)
       }
     }
   }"

definition delete_from_class :: "heap \<Rightarrow> addr \<Rightarrow> int \<Rightarrow> heap option" where
  "delete_from_class h bp prev = do {
     (ptr, ptr_size) \<leftarrow>
       (if prev = 0 then do {
          n \<leftarrow> NEXT_BLKP h bp; sz \<leftarrow> GET_SIZE h (HDRP n); Some (n, sint sz) }
        else if prev = 1 then do {
          p \<leftarrow> PREV_BLKP h bp; sz \<leftarrow> GET_SIZE h (HDRP p); Some (p, sint sz) }
        else if prev = 2 then do {
          sz \<leftarrow> GET_SIZE h (HDRP bp); Some (bp, sint sz) }
        else Some (0, 0));
     if ptr_size \<le> 512 then delete_in h 0 ptr
     else if ptr_size \<le> 1024 then delete_in h 1 ptr
     else if ptr_size \<le> 2048 then delete_in h 2 ptr
     else if ptr_size \<le> 4096 then delete_in h 3 ptr
     else if ptr_size \<le> 8192 then delete_in h 4 ptr
     else if ptr_size \<le> 16384 then delete_in h 5 ptr
     else delete_in h 6 ptr
   }"

definition append_in :: "heap \<Rightarrow> nat \<Rightarrow> addr \<Rightarrow> heap option" where
  "append_in h k bp = do {
     h1 \<leftarrow> PUT h bp 0;
     c \<leftarrow> get_class h1 k;
     h3 \<leftarrow> (if c \<noteq> 0 then do {
              h2 \<leftarrow> PUT h1 (bp + 4) (ptrdiff c bp);
              c2 \<leftarrow> get_class h2 k;
              PUT h2 c2 (ptrdiff bp c2) }
            else PUT h1 (bp + 4) 0);
     set_class h3 k bp
   }"

definition append_to_class :: "heap \<Rightarrow> addr \<Rightarrow> int \<Rightarrow> heap option" where
  "append_to_class h bp size' =
     (if size' \<le> 512 then append_in h 0 bp
      else if size' \<le> 1024 then append_in h 1 bp
      else if size' \<le> 2048 then append_in h 2 bp
      else if size' \<le> 4096 then append_in h 3 bp
      else if size' \<le> 8192 then append_in h 4 bp
      else if size' \<le> 16384 then append_in h 5 bp
      else append_in h 6 bp)"

section \<open>Fit search\<close>

text \<open>
  The test \<open>(int)(GET_SIZE(HDRP(p)) - asize) >= 0\<close>: the difference is taken in
  \<open>size_t\<close> and cut to a signed 32-bit integer.
\<close>

definition fits :: "u32 \<Rightarrow> size_t \<Rightarrow> bool" where
  "fits sz asize \<longleftrightarrow> 0 \<le> sint (ucast (ucast sz - asize :: size_t) :: u32)"

text \<open>
  The loop \<open>for (; ; increment += 1)\<close> over the classes \<open>base + increment\<close>, left by
  \<open>break\<close> on a hit and by \<open>return NULL\<close> when \<open>increment == lim\<close>.
\<close>

partial_function (option) find_fit_loop ::
  "heap \<Rightarrow> size_t \<Rightarrow> nat \<Rightarrow> nat \<Rightarrow> nat \<Rightarrow> addr option" where
  "find_fit_loop h asize base lim increment = do {
     c \<leftarrow> get_class h (base + increment);
     hit \<leftarrow> (if c \<noteq> 0 then do { sz \<leftarrow> GET_SIZE h (HDRP c); Some (fits sz asize) }
             else Some False);
     if hit then get_class h (base + increment)
     else if increment = lim then Some 0
     else find_fit_loop h asize base lim (increment + 1)
   }"

declare find_fit_loop.simps [code]

definition find_fit :: "heap \<Rightarrow> size_t \<Rightarrow> addr option" where
  "find_fit h asize =
     (if asize \<le> 512 then find_fit_loop h asize 0 6 0
      else if asize \<le> 1024 then find_fit_loop h asize 1 5 0
      else if asize \<le> 2048 then find_fit_loop h asize 2 4 0
      else if asize \<le> 4096 then find_fit_loop h asize 3 3 0
      else if asize \<le> 8192 then find_fit_loop h asize 4 2 0
      else if asize \<le> 16384 then find_fit_loop h asize 5 1 0
      else do {
        c \<leftarrow> get_class h 6;
        if c \<noteq> 0 then do {
          sz \<leftarrow> GET_SIZE h (HDRP c);
          if fits sz asize then get_class h 6 else Some 0 }
        else Some 0 })"

section \<open>Coalescing, placement, extension\<close>

definition coalesce :: "heap \<Rightarrow> addr \<Rightarrow> (addr \<times> heap) option" where
  "coalesce h bp = do {
     p \<leftarrow> PREV_BLKP h bp;
     pf \<leftarrow> FTRP h p;
     prev_alloc \<leftarrow> GET_ALLOC h pf;
     n \<leftarrow> NEXT_BLKP h bp;
     next_alloc \<leftarrow> GET_ALLOC h (HDRP n);
     size' \<leftarrow> GET_SIZE h (HDRP bp);
     if prev_alloc \<noteq> 0 \<and> next_alloc \<noteq> 0 then do {
       h1 \<leftarrow> append_to_class h bp (sint size');
       Some (bp, h1)
     } else if prev_alloc \<noteq> 0 \<and> next_alloc = 0 then do {
       n \<leftarrow> NEXT_BLKP h bp;
       next_size \<leftarrow> GET_SIZE h (HDRP n);
       let size' = size' + next_size;
       h1 \<leftarrow> delete_from_class h bp 0;
       h2 \<leftarrow> PUT h1 (HDRP bp) (PACK size' 0);
       f \<leftarrow> FTRP h2 bp;
       h3 \<leftarrow> PUT h2 f (PACK size' 0);
       h4 \<leftarrow> append_to_class h3 bp (sint size');
       Some (bp, h4)
     } else if prev_alloc = 0 \<and> next_alloc \<noteq> 0 then do {
       p \<leftarrow> PREV_BLKP h bp;
       prev_size \<leftarrow> GET_SIZE h (HDRP p);
       let size' = size' + prev_size;
       h1 \<leftarrow> delete_from_class h bp 1;
       f \<leftarrow> FTRP h1 bp;
       h2 \<leftarrow> PUT h1 f (PACK size' 0);
       p \<leftarrow> PREV_BLKP h2 bp;
       h3 \<leftarrow> PUT h2 (HDRP p) (PACK size' 0);
       bp \<leftarrow> PREV_BLKP h3 bp;
       h4 \<leftarrow> append_to_class h3 bp (sint size');
       Some (bp, h4)
     } else do {
       p \<leftarrow> PREV_BLKP h bp;
       prev_size \<leftarrow> GET_SIZE h (HDRP p);
       n \<leftarrow> NEXT_BLKP h bp;
       nf \<leftarrow> FTRP h n;
       next_size \<leftarrow> GET_SIZE h nf;
       let size' = size' + (prev_size + next_size);
       h1 \<leftarrow> delete_from_class h bp 1;
       h2 \<leftarrow> delete_from_class h1 bp 0;
       p \<leftarrow> PREV_BLKP h2 bp;
       h3 \<leftarrow> PUT h2 (HDRP p) (PACK size' 0);
       n \<leftarrow> NEXT_BLKP h3 bp;
       nf \<leftarrow> FTRP h3 n;
       h4 \<leftarrow> PUT h3 nf (PACK size' 0);
       bp \<leftarrow> PREV_BLKP h4 bp;
       h5 \<leftarrow> append_to_class h4 bp (sint size');
       Some (bp, h5)
     }
   }"

text \<open>
  In \<open>place\<close>, \<open>csize\<close> is \<open>uint32_t\<close> and \<open>asize\<close> is \<open>size_t\<close>: \<open>csize - asize\<close> is
  computed in \<open>size_t\<close>, cut to 32 bits by \<open>PUT\<close> and to \<open>int\<close> by \<open>append_to_class\<close>.
\<close>

definition place :: "heap \<Rightarrow> addr \<Rightarrow> size_t \<Rightarrow> heap option" where
  "place h bp asize = do {
     csize \<leftarrow> GET_SIZE h (HDRP bp);
     h1 \<leftarrow> delete_from_class h bp 2;
     if (ucast csize - asize :: size_t) \<ge> 16 then do {
       h2 \<leftarrow> PUT h1 (HDRP bp) (ucast (asize OR 1));
       f \<leftarrow> FTRP h2 bp;
       h3 \<leftarrow> PUT h2 f (ucast (asize OR 1));
       bp \<leftarrow> NEXT_BLKP h3 bp;
       h4 \<leftarrow> PUT h3 (HDRP bp) (ucast ((ucast csize - asize :: size_t) OR 0));
       f \<leftarrow> FTRP h4 bp;
       h5 \<leftarrow> PUT h4 f (ucast ((ucast csize - asize :: size_t) OR 0));
       append_to_class h5 bp (sint (ucast (ucast csize - asize :: size_t) :: u32))
     } else do {
       h2 \<leftarrow> PUT h1 (HDRP bp) (PACK csize 1);
       f \<leftarrow> FTRP h2 bp;
       PUT h2 f (PACK csize 1)
     }
   }"

definition extend_heap :: "heap \<Rightarrow> size_t \<Rightarrow> (addr \<times> heap) option" where
  "extend_heap h words = do {
     let size' = (ucast (if words mod 2 \<noteq> 0 then (words + 1) * 4 else words * 4) :: u32);
     let (bp, h1) = mem_sbrk h (unat size');
     if bp = - 1 then Some (0, h1)
     else do {
       h2 \<leftarrow> PUT h1 (HDRP bp) (PACK size' 0);
       f \<leftarrow> FTRP h2 bp;
       h3 \<leftarrow> PUT h2 f (PACK size' 0);
       n \<leftarrow> NEXT_BLKP h3 bp;
       h4 \<leftarrow> PUT h3 (HDRP n) (PACK 0 1);
       coalesce h4 bp
     }
   }"

section \<open>The public operations\<close>

text \<open>
  \<open>mm_init\<close> in three parts: the slot table (lines 106 to 116), the empty heap (lines
  118 to 124), and the first extension with what follows it (lines 127 to 134).
\<close>

definition mm_init_classes :: "heap \<Rightarrow> (bool \<times> heap) option" where
  "mm_init_classes h =
     (let (p, h1) = mem_sbrk h 56; h2 = h1\<lparr>ptr_classes := p\<rparr> in
      if p = 0 then Some (False, h2)
      else do {
        h3 \<leftarrow> set_class h2 0 0;
        h4 \<leftarrow> set_class h3 1 0;
        h5 \<leftarrow> set_class h4 2 0;
        h6 \<leftarrow> set_class h5 3 0;
        h7 \<leftarrow> set_class h6 4 0;
        h8 \<leftarrow> set_class h7 5 0;
        Some (True, h8) })"

definition mm_init_heap :: "heap \<Rightarrow> (bool \<times> heap) option" where
  "mm_init_heap h =
     (let (p, h1) = mem_sbrk h 16; h2 = h1\<lparr>heap_listp := p\<rparr> in
      if p = 0 then Some (False, h2)
      else do {
        h3 \<leftarrow> PUT h2 (heap_listp h2) 0;
        h4 \<leftarrow> PUT h3 (heap_listp h3 + 4) (PACK 8 1);
        h5 \<leftarrow> PUT h4 (heap_listp h4 + 8) (PACK 8 1);
        h6 \<leftarrow> PUT h5 (heap_listp h5 + 4 + 8) (PACK 0 1);
        Some (True, h6\<lparr>heap_listp := heap_listp h6 + 8\<rparr>) })"

definition mm_init_extend :: "heap \<Rightarrow> (int \<times> heap) option" where
  "mm_init_extend h = do {
     (bp, h1) \<leftarrow> extend_heap h (65536 div 4);
     if bp = 0 then Some (- 1, h1)
     else do {
       h2 \<leftarrow> set_class h1 6 (heap_listp h1 + 8);
       c \<leftarrow> get_class h2 6;
       h3 \<leftarrow> PUT h2 c 0;
       c \<leftarrow> get_class h3 6;
       h4 \<leftarrow> PUT h3 (c + 4) 0;
       Some (0, h4) }
   }"

definition mm_init :: "heap \<Rightarrow> (int \<times> heap) option" where
  "mm_init h = do {
     (ok, h1) \<leftarrow> mm_init_classes h;
     if \<not> ok then Some (- 1, h1)
     else do {
       (ok, h2) \<leftarrow> mm_init_heap h1;
       if \<not> ok then Some (- 1, h2) else mm_init_extend h2 }
   }"

definition mm_malloc :: "heap \<Rightarrow> size_t \<Rightarrow> (addr \<times> heap) option" where
  "mm_malloc h size' =
     (if size' \<le> 0 then Some (0, h)
      else do {
        let asize = (if size' \<le> 8 then 8 + 8 else ucast (8 * ((size' + 8 + (8 - 1)) div 8)) :: u32);
        bp \<leftarrow> find_fit h (ucast asize);
        if bp \<noteq> 0 then do {
          h1 \<leftarrow> place h bp (ucast asize);
          Some (bp, h1)
        } else do {
          let extendsize = (if asize > 65536 then 65536 else asize);
          (bp, h1) \<leftarrow> extend_heap h (ucast (extendsize div 4));
          if bp = 0 then Some (0, h1)
          else do {
            h2 \<leftarrow> place h1 bp (ucast asize);
            Some (bp, h2) }
        }
      })"

definition mm_free :: "heap \<Rightarrow> addr \<Rightarrow> heap option" where
  "mm_free h bp = do {
     size' \<leftarrow> GET_SIZE h (HDRP bp);
     h1 \<leftarrow> PUT h (HDRP bp) (PACK size' 0);
     f \<leftarrow> FTRP h1 bp;
     h2 \<leftarrow> PUT h1 f (PACK size' 0);
     (r, h3) \<leftarrow> coalesce h2 bp;
     Some h3
   }"

text \<open>
  \<open>memcpy\<close> moves bytes; a byte is a quarter of the word that holds it (little endian).
\<close>

definition GETB :: "heap \<Rightarrow> addr \<Rightarrow> 8 word option" where
  "GETB h p = do {
     w \<leftarrow> GET h (p - p mod 4);
     Some (ucast (drop_bit (8 * nat (p mod 4)) w)) }"

definition PUTB :: "heap \<Rightarrow> addr \<Rightarrow> 8 word \<Rightarrow> heap option" where
  "PUTB h p b = do {
     w \<leftarrow> GET h (p - p mod 4);
     PUT h (p - p mod 4)
       ((w AND NOT (push_bit (8 * nat (p mod 4)) 255)) OR push_bit (8 * nat (p mod 4)) (ucast b)) }"

fun memcpy :: "heap \<Rightarrow> addr \<Rightarrow> addr \<Rightarrow> nat \<Rightarrow> heap option" where
  "memcpy h dst src 0 = Some h"
| "memcpy h dst src (Suc n) = do {
     b \<leftarrow> GETB h src;
     h1 \<leftarrow> PUTB h dst b;
     memcpy h1 (dst + 1) (src + 1) n }"

text \<open>The number of bytes \<open>mm_realloc\<close> hands to \<open>memcpy\<close> (lines 201 to 203).\<close>

definition realloc_copySize :: "heap \<Rightarrow> addr \<Rightarrow> size_t \<Rightarrow> size_t option" where
  "realloc_copySize h ptr size' = do {
     sz \<leftarrow> GET_SIZE h (HDRP ptr);
     let copySize = (ucast sz :: size_t);
     Some (if size' < copySize then size' else copySize) }"

datatype realloc_result = Returned addr | Exited

definition mm_realloc :: "heap \<Rightarrow> addr \<Rightarrow> size_t \<Rightarrow> (realloc_result \<times> heap) option" where
  "mm_realloc h ptr size' = do {
     (newp, h1) \<leftarrow> mm_malloc h size';
     if newp = 0 then Some (Exited, h1)
     else do {
       copySize \<leftarrow> realloc_copySize h1 ptr size';
       h2 \<leftarrow> memcpy h1 newp ptr (unat copySize);
       h3 \<leftarrow> mm_free h2 ptr;
       Some (Returned newp, h3) }
   }"

section \<open>The fit search as the specification words it\<close>

text \<open>
  The class of a size: \<open>s \<le> 512\<close> is class 0, \<open>\<le> 1024\<close> class 1, up to
  \<open>\<le> 16384\<close> class 5, anything larger class 6.
\<close>

definition bucket_of :: "int \<Rightarrow> nat" where
  "bucket_of s =
     (if s \<le> 512 then 0 else if s \<le> 1024 then 1 else if s \<le> 2048 then 2
      else if s \<le> 4096 then 3 else if s \<le> 8192 then 4 else if s \<le> 16384 then 5 else 6)"

text \<open>
  The specification's search: visit the given classes in order, look at the head of each
  and at nothing else, and return the first head whose block size is at least \<open>asize\<close>;
  \<open>none\<close> (0) when no head qualifies.
\<close>

fun scan_heads :: "heap \<Rightarrow> int \<Rightarrow> nat list \<Rightarrow> addr" where
  "scan_heads h asize [] = 0"
| "scan_heads h asize (k # ks) =
     (if classes h k \<noteq> 0 \<and> asize \<le> uint (mem h (classes h k - 4) AND NOT 7) then classes h k
      else scan_heads h asize ks)"

definition find_fit_spec :: "heap \<Rightarrow> int \<Rightarrow> addr" where
  "find_fit_spec h asize = scan_heads h asize [bucket_of asize ..< 7]"

text \<open>The same scan with the test the code applies to a head.\<close>

fun scan_fits :: "heap \<Rightarrow> size_t \<Rightarrow> nat list \<Rightarrow> addr" where
  "scan_fits h asize [] = 0"
| "scan_fits h asize (k # ks) =
     (if classes h k \<noteq> 0 \<and> fits (mem h (classes h k - 4) AND NOT 7) asize then classes h k
      else scan_fits h asize ks)"

section \<open>Concrete heaps\<close>

text \<open>
  A host region of 20 MiB at address 4096 whose bytes are all zero, before \<open>mm_init\<close>;
  and the heap that \<open>mm_init\<close> makes of it.
\<close>

definition fresh :: heap where
  "fresh = \<lparr>mem_start_brk = 4096, mem_brk = 4096, mem_max_addr = 4096 + 20 * 1048576,
            mem = (\<lambda>_. 0), classes = (\<lambda>_. 0), ptr_classes = 0, heap_listp = 0\<rparr>"

definition h0 :: heap where
  "h0 = \<lparr>mem_start_brk = 4096, mem_brk = 69704, mem_max_addr = 4096 + 20 * 1048576,
         mem = (\<lambda>_. 0)(4156 := 9, 4160 := 9, 4164 := 65536, 69696 := 65536, 69700 := 1),
         classes = (\<lambda>_. 0)(6 := 4168), ptr_classes = 4096, heap_listp = 4160\<rparr>"

text \<open>
  The same region when slot 6 of the table-to-be still holds a pointer from an earlier
  use of the region.
\<close>

definition stale :: heap where
  "stale = fresh\<lparr>classes := (\<lambda>_. 0)(6 := 69696)\<rparr>"

text \<open>Four blocks of 1000 bytes; the first and the third freed; one more allocated.\<close>

definition run_delete_head :: "heap option" where
  "run_delete_head = do {
     (a0, h) \<leftarrow> mm_malloc h0 1000; (a1, h) \<leftarrow> mm_malloc h 1000;
     (a2, h) \<leftarrow> mm_malloc h 1000; (a3, h) \<leftarrow> mm_malloc h 1000;
     h \<leftarrow> mm_free h a0; h \<leftarrow> mm_free h a2;
     (b, h) \<leftarrow> mm_malloc h 1000;
     Some h }"

text \<open>
  A request of \<open>2^32 - 4\<close> bytes, a request that takes the rest of the first chunk, and
  the first block freed.
\<close>

definition run_wrap :: "heap option" where
  "run_wrap = do {
     (p, h) \<leftarrow> mm_malloc h0 4294967292;
     (q, h) \<leftarrow> mm_malloc h 65520;
     h \<leftarrow> mm_free h p;
     Some h }"

text \<open>The region when slot 6 happens to hold the address of the first block's header.\<close>

definition clobber :: heap where
  "clobber = fresh\<lparr>classes := (\<lambda>_. 0)(6 := 4164)\<rparr>"

text \<open>
  Ten blocks of 1000 bytes allocated in order; the blocks 0, 2, 4, 6 and 8 freed in that
  order.
\<close>

definition run_lifo :: "(addr list \<times> heap) option" where
  "run_lifo = do {
     (a0, h) \<leftarrow> mm_malloc h0 1000; (a1, h) \<leftarrow> mm_malloc h 1000;
     (a2, h) \<leftarrow> mm_malloc h 1000; (a3, h) \<leftarrow> mm_malloc h 1000;
     (a4, h) \<leftarrow> mm_malloc h 1000; (a5, h) \<leftarrow> mm_malloc h 1000;
     (a6, h) \<leftarrow> mm_malloc h 1000; (a7, h) \<leftarrow> mm_malloc h 1000;
     (a8, h) \<leftarrow> mm_malloc h 1000; (a9, h) \<leftarrow> mm_malloc h 1000;
     h \<leftarrow> mm_free h a0; h \<leftarrow> mm_free h a2; h \<leftarrow> mm_free h a4;
     h \<leftarrow> mm_free h a6; h \<leftarrow> mm_free h a8;
     Some ([a0, a1, a2, a3, a4, a5, a6, a7, a8, a9], h) }"

text \<open>The heap after \<open>mm_init\<close> and \<open>mm_malloc(1000)\<close>, which returns 4168.\<close>

definition h_alloc :: heap where
  "h_alloc = \<lparr>mem_start_brk = 4096, mem_brk = 69704, mem_max_addr = 4096 + 20 * 1048576,
         mem = (\<lambda>_. 0)(4156 := 9, 4160 := 9, 4164 := 1009, 5168 := 1009, 5172 := 64528,
                        5176 := 0, 5180 := 0, 69696 := 64528, 69700 := 1),
         classes = (\<lambda>_. 0)(6 := 5176), ptr_classes = 4096, heap_listp = 4160\<rparr>"

section \<open>The heap as a list of blocks\<close>

text \<open>
  The word that \<open>PACK\<close> makes of a block size and an allocated bit, as it stands in
  a header and in a footer.
\<close>

definition tag :: "int \<Rightarrow> bool \<Rightarrow> u32" where
  "tag s al = word_of_int s OR (if al then 1 else 0)"

text \<open>
  The blocks between the prologue and the epilogue, in address order, each given by its
  size and its allocated bit.  \<open>layout a bs\<close> adds the payload address of each block when
  the first one is at \<open>a\<close>; \<open>blocks_ok\<close> says that the header and the footer of each
  block hold its size and its allocated bit.
\<close>

fun layout :: "addr \<Rightarrow> (int \<times> bool) list \<Rightarrow> (addr \<times> int \<times> bool) list" where
  "layout a [] = []"
| "layout a ((s, al) # bs) = (a, s, al) # layout (a + s) bs"

definition totsize :: "(int \<times> bool) list \<Rightarrow> int" where
  "totsize bs = sum_list (map fst bs)"

definition sizes_ok :: "(int \<times> bool) list \<Rightarrow> bool" where
  "sizes_ok bs \<longleftrightarrow> (\<forall>(s, al) \<in> set bs. 16 \<le> s \<and> s mod 8 = 0)"

definition blocks_ok :: "(addr \<Rightarrow> u32) \<Rightarrow> (addr \<times> int \<times> bool) list \<Rightarrow> bool" where
  "blocks_ok m L \<longleftrightarrow> (\<forall>(a, s, al) \<in> set L. m (a - 4) = tag s al \<and> m (a + s - 8) = tag s al)"

text \<open>
  No block of the list and its successor are both free.
\<close>

fun noadj :: "(int \<times> bool) list \<Rightarrow> bool" where
  "noadj [] = True"
| "noadj [b] = True"
| "noadj ((s, al) # (t, bl) # bs) = ((al \<or> bl) \<and> noadj ((t, bl) # bs))"

text \<open>
  A free list as the words of its members hold it: the successor offset of each member
  leads to the next one, whose predecessor offset leads back, and the last successor
  offset is 0.  The predecessor offset of the first member is left open:
  \<open>delete_from_class\<close> does not reset it when it removes a head.
\<close>

fun seg :: "(addr \<Rightarrow> u32) \<Rightarrow> addr list \<Rightarrow> bool" where
  "seg m (a # b # r) = (sint (m (a + 4)) = b - a \<and> sint (m b) = a - b \<and> seg m (b # r))"
| "seg m [a] = True"
| "seg m [] = True"

definition links :: "(addr \<Rightarrow> u32) \<Rightarrow> addr list \<Rightarrow> bool" where
  "links m xs \<longleftrightarrow> seg m xs \<and> (xs \<noteq> [] \<longrightarrow> m (last xs + 4) = 0)"

text \<open>
  What the calls after \<open>mm_init\<close> leave as it is: the slot table in front of the
  prologue, a region of less than \<open>2^31\<close> bytes (offsets and the fit test are
  \<open>int\<close>).  \<open>same_frame\<close> relates heaps that differ in their words and slots only.
\<close>

definition static :: "heap \<Rightarrow> bool" where
  "static h \<longleftrightarrow>
     class_ok h 0 \<and> heap_listp h = ptr_classes h + 64 \<and> mem_brk h \<le> mem_max_addr h \<and>
     mem_max_addr h - mem_start_brk h < 2 ^ 31 \<and> 0 \<le> mem_start_brk h"

definition same_frame :: "heap \<Rightarrow> heap \<Rightarrow> bool" where
  "same_frame h h' \<longleftrightarrow>
     mem_start_brk h' = mem_start_brk h \<and> mem_brk h' = mem_brk h \<and>
     mem_max_addr h' = mem_max_addr h \<and> ptr_classes h' = ptr_classes h \<and>
     heap_listp h' = heap_listp h"

abbreviation lay :: "heap \<Rightarrow> (int \<times> bool) list \<Rightarrow> (addr \<times> int \<times> bool) list" where
  "lay h bs \<equiv> layout (heap_listp h + 8) bs"

text \<open>
  \<open>Chain h bs\<close>: the blocks \<open>bs\<close> fill the heap from the prologue to the epilogue,
  every header equal to its footer.  \<open>Lists h bs F X\<close>: slot \<open>k\<close> heads the free list
  \<open>F k\<close>, whose members are free blocks of class \<open>k\<close>, and every free block is in the
  list of its class, those of \<open>X\<close> apart (the blocks a call has taken out of their list
  for the moment).  \<open>allocs\<close> are the payload addresses of the allocated blocks.
\<close>

definition Chain :: "heap \<Rightarrow> (int \<times> bool) list \<Rightarrow> bool" where
  "Chain h bs \<longleftrightarrow>
     static h \<and> sizes_ok bs \<and> heap_listp h + 8 + totsize bs = mem_brk h \<and>
     mem h (heap_listp h - 4) = 9 \<and> mem h (heap_listp h) = 9 \<and> mem h (mem_brk h - 4) = 1 \<and>
     blocks_ok (mem h) (lay h bs)"

definition Lists :: "heap \<Rightarrow> (int \<times> bool) list \<Rightarrow> (nat \<Rightarrow> addr list) \<Rightarrow> addr set \<Rightarrow> bool" where
  "Lists h bs F X \<longleftrightarrow>
     (\<forall>k<7. classes h k = (case F k of [] \<Rightarrow> 0 | a # r \<Rightarrow> a) \<and> links (mem h) (F k) \<and>
        distinct (F k) \<and>
        (\<forall>a \<in> set (F k). a \<notin> X \<and> (\<exists>s. (a, s, False) \<in> set (lay h bs) \<and> bucket_of s = k))) \<and>
     (\<forall>(a, s, al) \<in> set (lay h bs). \<not> al \<longrightarrow> a \<in> X \<or> a \<in> set (F (bucket_of s)))"

definition PInv :: "heap \<Rightarrow> (int \<times> bool) list \<Rightarrow> (nat \<Rightarrow> addr list) \<Rightarrow> addr set \<Rightarrow> bool" where
  "PInv h bs F X \<longleftrightarrow> Chain h bs \<and> Lists h bs F X"

definition allocs :: "heap \<Rightarrow> (int \<times> bool) list \<Rightarrow> addr set" where
  "allocs h bs = {a. \<exists>s. (a, s, True) \<in> set (lay h bs)}"

text \<open>
  Coalescing on the list of blocks: the block of size \<open>s\<close> between \<open>pre\<close> and
  \<open>post\<close> takes in the last block of \<open>pre\<close> and the first of \<open>post\<close> when they are
  free, and its size is the sum of the sizes taken in.  These are the four cases of
  \<open>coalesce\<close>.
\<close>

definition pre_keep :: "(int \<times> bool) list \<Rightarrow> (int \<times> bool) list" where
  "pre_keep pre = (if pre \<noteq> [] \<and> \<not> snd (last pre) then butlast pre else pre)"

definition pre_size :: "(int \<times> bool) list \<Rightarrow> int" where
  "pre_size pre = (if pre \<noteq> [] \<and> \<not> snd (last pre) then fst (last pre) else 0)"

definition post_keep :: "(int \<times> bool) list \<Rightarrow> (int \<times> bool) list" where
  "post_keep post = (if post \<noteq> [] \<and> \<not> snd (hd post) then tl post else post)"

definition post_size :: "(int \<times> bool) list \<Rightarrow> int" where
  "post_size post = (if post \<noteq> [] \<and> \<not> snd (hd post) then fst (hd post) else 0)"

definition merged :: "(int \<times> bool) list \<Rightarrow> int \<Rightarrow> (int \<times> bool) list \<Rightarrow> (int \<times> bool) list" where
  "merged pre s post = pre_keep pre @ (pre_size pre + s + post_size post, False) # post_keep post"

definition coalesced ::
  "heap \<Rightarrow> (int \<times> bool) list \<Rightarrow> int \<Rightarrow> (int \<times> bool) list \<Rightarrow>
   addr \<Rightarrow> heap \<Rightarrow> (int \<times> bool) list \<Rightarrow> (nat \<Rightarrow> addr list) \<Rightarrow> bool" where
  "coalesced h pre s post x' h' bs' F' \<longleftrightarrow>
     PInv h' bs' F' {} \<and> noadj bs' \<and> same_frame h h' \<and>
     allocs h' bs' = allocs h (pre @ (s, False) # post) \<and>
     bs' = merged pre s post \<and> x' = heap_listp h + 8 + totsize (pre_keep pre)"

text \<open>
  The adjusted size \<open>mm_malloc\<close> computes of a request (lines 153 to 156), when it fits
  32 bits.
\<close>

definition asz :: "int \<Rightarrow> int" where
  "asz n = (if n \<le> 8 then 16 else 8 * ((n + 15) div 8))"

text \<open>
  The heaps between public calls, with the payload addresses handed out and not yet
  freed: \<open>mm_init\<close> on a region of less than \<open>2^31\<close> bytes whose slot 6 holds
  \<open>NULL\<close>, then calls with a result in the model (none of their accesses is left
  undefined by C), \<open>mm_malloc\<close> and \<open>mm_realloc\<close> with a request
  of at most \<open>2^32 - 16\<close> bytes, \<open>mm_free\<close> and \<open>mm_realloc\<close> on an address handed
  out and not yet freed.
\<close>

inductive reach :: "heap \<Rightarrow> addr set \<Rightarrow> bool" where
  init: "0 \<le> mem_start_brk r \<Longrightarrow> mem_max_addr r - mem_start_brk r < 2 ^ 31 \<Longrightarrow>
     classes r 6 = 0 \<Longrightarrow> mm_init r = Some (0, h) \<Longrightarrow> reach h {}"
| malloc: "reach h L \<Longrightarrow> size' \<le> 4294967280 \<Longrightarrow> mm_malloc h size' = Some (p, h') \<Longrightarrow>
     reach h' (if p = 0 then L else insert p L)"
| free: "reach h L \<Longrightarrow> p \<in> L \<Longrightarrow> mm_free h p = Some h' \<Longrightarrow> reach h' (L - {p})"
| realloc: "reach h L \<Longrightarrow> p \<in> L \<Longrightarrow> size' \<le> 4294967280 \<Longrightarrow>
     mm_realloc h p size' = Some (Returned q, h') \<Longrightarrow> reach h' (insert q L - {p})"

section \<open>Evaluation\<close>

lemmas mm_defs =
  mm_init_def mm_init_classes_def mm_init_heap_def mm_init_extend_def mem_sbrk_def
  set_class_def get_class_def class_ok_def PUT_def GET_def word_ok_def PACK_def Let_def
  HDRP_def FTRP_def GET_SIZE_def GET_ALLOC_def NEXT_BLKP_def PREV_BLKP_def GET_I_def
  SUCC_def PRED_def ptrdiff_def delete_from_class_def delete_in_def append_to_class_def
  append_in_def fits_def find_fit_def find_fit_loop.simps coalesce_def place_def
  extend_heap_def mm_malloc_def mm_free_def realloc_copySize_def

lemma mm_init_fresh: "mm_init fresh = Some (0, h0)"
  by (auto simp add: mm_defs fresh_def h0_def fun_eq_iff)

section \<open>Basic facts\<close>

lemma sint_ptrdiff: "\<bar>p - q\<bar> < 2 ^ 31 \<Longrightarrow> sint (ptrdiff p q) = p - q"
  by (simp only: ptrdiff_def signed_of_int) (simp add: signed_take_bit_int_eq_self abs_less_iff)

lemma word_ok_upd [simp]:
  "word_ok (h\<lparr>mem := m\<rparr>) p = word_ok h p"
  "word_ok (h\<lparr>classes := c\<rparr>) p = word_ok h p"
  "word_ok (h\<lparr>heap_listp := l\<rparr>) p = word_ok h p"
  by (simp_all add: word_ok_def)

lemma class_ok_upd [simp]:
  "class_ok (h\<lparr>mem := m\<rparr>) i = class_ok h i"
  "class_ok (h\<lparr>classes := c\<rparr>) i = class_ok h i"
  "class_ok (h\<lparr>heap_listp := l\<rparr>) i = class_ok h i"
  by (simp_all add: class_ok_def)

lemma word_ok_brk:
  "word_ok (h\<lparr>mem_brk := b\<rparr>) p \<longleftrightarrow>
     p mod 4 = 0 \<and> mem_start_brk h \<le> p \<and> p + 4 \<le> b \<and>
     (p + 4 \<le> ptr_classes h \<or> ptr_classes h + 56 \<le> p)"
  by (simp add: word_ok_def)

lemma class_ok_brk:
  "class_ok (h\<lparr>mem_brk := b\<rparr>) i \<longleftrightarrow>
     i < 7 \<and> ptr_classes h mod 8 = 0 \<and> mem_start_brk h \<le> ptr_classes h \<and> ptr_classes h + 56 \<le> b"
  by (simp add: class_ok_def)

lemma PUT_eq_Some: "PUT h p v = Some h' \<longleftrightarrow> word_ok h p \<and> h' = h\<lparr>mem := (mem h)(p := v)\<rparr>"
  by (auto simp add: PUT_def)

lemma GET_eq_Some: "GET h p = Some w \<longleftrightarrow> word_ok h p \<and> w = mem h p"
  by (auto simp add: GET_def)

lemma set_class_eq_Some:
  "set_class h i p = Some h' \<longleftrightarrow> class_ok h i \<and> h' = h\<lparr>classes := (classes h)(i := p)\<rparr>"
  by (auto simp add: set_class_def)

lemma get_class_eq_Some: "get_class h i = Some p \<longleftrightarrow> class_ok h i \<and> p = classes h i"
  by (auto simp add: get_class_def)

lemma append_in_lifo:
  assumes "class_ok h k" "bp mod 8 = 0" "word_ok h bp" "word_ok h (bp + 4)"
    and "classes h k \<noteq> 0 \<longrightarrow> classes h k mod 8 = 0 \<and> word_ok h (classes h k) \<and> \<bar>classes h k - bp\<bar> < 2 ^ 31"
  shows "\<exists>h'. append_in h k bp = Some h' \<and> get_class h' k = Some bp \<and> GET_I h' bp = Some 0 \<and>
           GET_I h' (bp + 4) = Some (if classes h k = 0 then 0 else classes h k - bp) \<and>
           (classes h k \<noteq> 0 \<longrightarrow> GET_I h' (classes h k) = Some (bp - classes h k))"
proof (cases "classes h k = 0")
  case True
  with assms show ?thesis
    by (simp add: append_in_def PUT_def word_ok_def get_class_def class_ok_def set_class_def GET_I_def GET_def)
next
  case False
  then have c: "classes h k mod 8 = 0" "word_ok h (classes h k)" "\<bar>classes h k - bp\<bar> < 2 ^ 31"
    using assms(5) by auto
  have ne: "classes h k \<noteq> bp + 4" using c(1) assms(2) by presburger
  have s1: "sint (ptrdiff (classes h k) bp) = classes h k - bp" using c(3) by (rule sint_ptrdiff)
  have s2: "sint (ptrdiff bp (classes h k)) = bp - classes h k" using c(3) by (intro sint_ptrdiff) simp
  show ?thesis
    using False assms(1-4) c(2) ne s1 s2
    by (auto simp add: append_in_def PUT_def word_ok_def get_class_def class_ok_def set_class_def GET_I_def GET_def)
qed

lemma append_to_class_in: "append_to_class h bp sz = append_in h (bucket_of sz) bp"
  by (simp add: append_to_class_def bucket_of_def)

lemma bucket_of_lt7: "bucket_of sz < 7"
  by (simp add: bucket_of_def)

lemma mm_init_classes_True:
  assumes "mm_init_classes h = Some (True, h1)"
  shows "mem_brk h mod 8 = 0 \<and> mem_start_brk h \<le> mem_brk h \<and> mem_brk h + 56 \<le> mem_max_addr h \<and>
     h1 = h\<lparr>mem_brk := mem_brk h + 56, classes := (classes h)(0 := 0, 1 := 0, 2 := 0, 3 := 0, 4 := 0, 5 := 0),
          ptr_classes := mem_brk h\<rparr>"
  using assms
  by (auto simp add: mm_init_classes_def mem_sbrk_def Let_def bind_eq_Some_conv set_class_eq_Some
      class_ok_def split: if_splits)

lemma mm_init_heap_True:
  assumes "mm_init_heap h = Some (True, h1)" and "ptr_classes h + 56 = mem_brk h"
  shows "mem_brk h + 16 \<le> mem_max_addr h \<and> mem_brk h mod 4 = 0 \<and> mem_start_brk h \<le> mem_brk h \<and>
     h1 = h\<lparr>mem_brk := mem_brk h + 16,
          mem := (mem h)(mem_brk h := 0, mem_brk h + 4 := PACK 8 1, mem_brk h + 8 := PACK 8 1,
                         mem_brk h + 12 := PACK 0 1),
          heap_listp := mem_brk h + 8\<rparr>"
  using assms
  by (auto simp add: mm_init_heap_def mem_sbrk_def Let_def bind_eq_Some_conv PUT_eq_Some
      word_ok_def add.commute split: if_splits)

lemma append_in_eq_Some:
  "append_in h k bp = Some h' \<longleftrightarrow>
     class_ok h k \<and> word_ok h bp \<and> word_ok h (bp + 4) \<and>
     (classes h k \<noteq> 0 \<longrightarrow> word_ok h (classes h k)) \<and>
     h' = h\<lparr>mem := (if classes h k \<noteq> 0
                     then (mem h)(bp := 0, bp + 4 := ptrdiff (classes h k) bp,
                                  classes h k := ptrdiff bp (classes h k))
                     else (mem h)(bp := 0, bp + 4 := 0)),
            classes := (classes h)(k := bp)\<rparr>"
  by (auto simp add: append_in_def bind_eq_Some_conv PUT_eq_Some get_class_eq_Some set_class_eq_Some)

lemma find_fit_loop_scan:
  assumes "class_ok h 0"
    and "\<forall>k<7. classes h k \<noteq> 0 \<longrightarrow> word_ok h (classes h k - 4)"
    and "base + lim = 6" and "increment \<le> lim"
  shows "find_fit_loop h asize base lim increment = Some (scan_fits h asize [base + increment ..< 7])"
  using assms
proof (induction "lim - increment" arbitrary: increment)
  case 0
  then have [simp]: "increment = lim" by simp
  have k: "base + lim < 7" using 0 by simp
  have u: "[base + lim ..< 7] = [base + lim]" using 0 by (simp add: upt_rec)
  show ?case
    using 0 k
    by (subst find_fit_loop.simps)
       (auto simp add: u get_class_def class_ok_def GET_SIZE_def GET_def HDRP_def)
next
  case (Suc n)
  then have lt: "increment < lim" by simp
  have k: "base + increment < 7" using Suc by simp
  have u: "[base + increment ..< 7] = (base + increment) # [Suc (base + increment) ..< 7]"
    using k by (simp add: upt_rec)
  have ih: "find_fit_loop h asize base lim (Suc increment) = Some (scan_fits h asize [Suc (base + increment) ..< 7])"
    using Suc.hyps(1)[of "Suc increment"] Suc.hyps(2) Suc.prems lt by auto
  show ?case
    using Suc.prems k lt
    by (subst find_fit_loop.simps)
       (auto simp add: u ih get_class_def class_ok_def GET_SIZE_def GET_def HDRP_def)
qed

lemma fits_iff:
  assumes "uint sz < 2 ^ 31" and "uint asize < 2 ^ 31"
  shows "fits sz asize \<longleftrightarrow> uint asize \<le> uint sz"
proof -
  define x where "x = uint sz"
  define a where "a = uint asize"
  have x0: "0 \<le> x" and a0: "0 \<le> a" by (simp_all add: x_def a_def)
  have xb: "x < 2147483648" and ab: "a < 2147483648" using assms by (simp_all add: x_def a_def)
  have xm: "uint sz mod 18446744073709551616 = uint sz"
    using x0 xb by (simp add: x_def)
  have d: "uint (ucast (ucast sz - asize :: size_t) :: u32) = (x - a) mod 4294967296"
    by (simp add: unsigned_ucast_eq uint_word_ariths take_bit_eq_mod xm mod_mod_cancel)
       (simp add: x_def a_def)
  have "fits sz asize \<longleftrightarrow> \<not> bit ((x - a) mod 4294967296) (31::nat)"
    by (simp add: fits_def sint_uint d signed_take_bit_nonnegative_iff)
  also have "\<dots> \<longleftrightarrow> a \<le> x"
  proof (cases "a \<le> x")
    case True
    then have "(x - a) mod 4294967296 = x - a" using xb a0 by simp
    moreover have "(x - a) div 2147483648 = 0" using True xb a0 by simp
    ultimately show ?thesis using True by (simp add: bit_iff_odd)
  next
    case False
    have "(x - a) mod 4294967296 = (x - a + 4294967296) mod 4294967296" by simp
    also have "\<dots> = x - a + 4294967296"
      using False ab x0 by (intro mod_pos_pos_trivial) auto
    finally have m: "(x - a) mod 4294967296 = x - a + 4294967296" .
    have "(x - a + 4294967296) div 2147483648 = 1" using False ab x0 by simp
    then show ?thesis using False m by (simp add: bit_iff_odd)
  qed
  finally show ?thesis by (simp add: x_def a_def)
qed

lemma scan_fits_heads:
  assumes "uint asize < 2 ^ 31"
    and "\<forall>k\<in>set ks. classes h k \<noteq> 0 \<longrightarrow> uint (mem h (classes h k - 4)) < 2 ^ 31"
  shows "scan_fits h asize ks = scan_heads h (uint asize) ks"
  using assms(2)
proof (induction ks)
  case Nil
  show ?case by simp
next
  case (Cons k ks)
  have "classes h k \<noteq> 0 \<Longrightarrow> fits (mem h (classes h k - 4) AND NOT 7) asize
          \<longleftrightarrow> uint asize \<le> uint (mem h (classes h k - 4) AND NOT 7)"
  proof (rule fits_iff)
    assume "classes h k \<noteq> 0"
    then have "uint (mem h (classes h k - 4)) < 2 ^ 31" using Cons.prems by simp
    moreover have "uint (mem h (classes h k - 4) AND NOT 7) \<le> uint (mem h (classes h k - 4))"
      by (simp add: word_and_le2 flip: word_le_def)
    ultimately show "uint (mem h (classes h k - 4) AND NOT 7) < 2 ^ 31" by linarith
  qed (rule assms(1))
  with Cons show ?case by auto
qed

lemma find_fit_scan_fits:
  assumes "class_ok h 0"
    and "\<forall>k<7. classes h k \<noteq> 0 \<longrightarrow> word_ok h (classes h k - 4)"
  shows "find_fit h asize = Some (scan_fits h asize [bucket_of (uint asize) ..< 7])"
proof -
  have l: "\<And>base lim. base + lim = 6 \<Longrightarrow>
      find_fit_loop h asize base lim 0 = Some (scan_fits h asize [base ..< 7])"
    using find_fit_loop_scan [OF assms, of _ _ 0 asize] by simp
  have six: "find_fit_loop h asize 0 6 0 = Some (scan_fits h asize [0 ..< 7])"
    "find_fit_loop h asize 1 5 0 = Some (scan_fits h asize [1 ..< 7])"
    "find_fit_loop h asize 2 4 0 = Some (scan_fits h asize [2 ..< 7])"
    "find_fit_loop h asize 3 3 0 = Some (scan_fits h asize [3 ..< 7])"
    "find_fit_loop h asize 4 2 0 = Some (scan_fits h asize [4 ..< 7])"
    "find_fit_loop h asize 5 1 0 = Some (scan_fits h asize [5 ..< 7])"
    by (simp_all add: l)
  have c6: "class_ok h 6" using assms(1) by (simp add: class_ok_def)
  have w6: "classes h 6 \<noteq> 0 \<Longrightarrow> word_ok h (classes h 6 - 4)" using assms(2) by simp
  have last: "[6 ..< 7] = [6::nat]" by (simp add: upt_rec)
  have br: "do { c \<leftarrow> get_class h 6;
        if c \<noteq> 0 then do {
          sz \<leftarrow> GET_SIZE h (HDRP c);
          if fits sz asize then get_class h 6 else Some 0 }
        else Some 0 } = Some (scan_fits h asize [6 ..< 7])"
    using c6 w6 by (auto simp add: last get_class_def GET_SIZE_def GET_def HDRP_def)
  show ?thesis
    unfolding find_fit_def br
    by (simp add: six [simplified] bucket_of_def word_le_def)
qed

lemma run_lifo_result:
  "\<exists>h. run_lifo = Some ([4168, 5176, 6184, 7192, 8200, 9208, 10216, 11224, 12232, 13240], h) \<and>
     get_class h 1 = Some 12232 \<and> SUCC h 12232 = Some 10216 \<and> SUCC h 10216 = Some 8200 \<and>
     SUCC h 8200 = Some 6184 \<and> SUCC h 6184 = Some 4168 \<and> GET_I h (4168 + 4) = Some 0 \<and>
     PRED h 4168 = Some 6184 \<and> PRED h 6184 = Some 8200 \<and> PRED h 8200 = Some 10216 \<and>
     PRED h 10216 = Some 12232 \<and> GET_I h 12232 = Some 0"
  by (simp add: run_lifo_def mm_defs h0_def)

section \<open>The heap invariant\<close>

lemma seven_mask: "(7 :: u32) = mask 3"
  by (simp add: mask_eq_exp_minus_1)

lemma low3D: "(w :: u32) AND 7 = 0 \<Longrightarrow> n < 3 \<Longrightarrow> \<not> bit w n"
proof -
  assume a: "w AND 7 = 0" and n: "n < 3"
  have "bit (w AND mask 3) n = bit (0 :: u32) n"
    using a by (simp add: seven_mask)
  then show ?thesis
    using n by (simp add: bit_simps)
qed

lemma low3_of_int: "s mod 8 = 0 \<Longrightarrow> (word_of_int s :: u32) AND 7 = 0"
proof -
  assume "s mod 8 = 0"
  then obtain q where "s = 8 * q" by (metis mod_eq_0_iff_dvd dvdE)
  then have "(word_of_int s :: u32) = push_bit 3 (word_of_int q)"
    by (simp add: push_bit_eq_mult)
  then show ?thesis
    unfolding seven_mask by (auto simp add: bit_eq_iff bit_simps)
qed

lemma aligned_size: "(w :: u32) AND 7 = 0 \<Longrightarrow> w AND NOT 7 = w"
proof (rule bit_word_eqI)
  fix n
  assume "w AND 7 = 0"
  then show "bit (w AND NOT 7) n = bit w n"
    using low3D [of w n] unfolding seven_mask
    by (cases "n < 3") (auto simp add: bit_simps dest: bit_imp_le_length)
qed

lemma aligned_or1_size: "(w :: u32) AND 7 = 0 \<Longrightarrow> (w OR 1) AND NOT 7 = w"
proof (rule bit_word_eqI)
  fix n
  assume "w AND 7 = 0"
  then show "bit ((w OR 1) AND NOT 7) n = bit w n"
    using low3D [of w n] unfolding seven_mask
    by (cases "n < 3") (auto simp add: bit_simps dest: bit_imp_le_length)
qed

lemma aligned_alloc: "(w :: u32) AND 7 = 0 \<Longrightarrow> w AND 1 = 0"
proof (rule bit_word_eqI)
  fix n
  assume "w AND 7 = 0"
  then show "bit (w AND 1) n = bit (0 :: u32) n"
    using low3D [of w n] by (cases "n < 3") (auto simp add: bit_simps)
qed

lemma aligned_or1_alloc: "((w :: u32) OR 1) AND 1 = 1"
  by (rule bit_word_eqI) (auto simp add: bit_simps)

lemma tag_size: "s mod 8 = 0 \<Longrightarrow> tag s al AND NOT 7 = word_of_int s"
  using aligned_size [OF low3_of_int, of s] aligned_or1_size [OF low3_of_int, of s]
  by (simp add: tag_def)

lemma tag_size': "s mod 8 = 0 \<Longrightarrow> tag s al AND - 8 = word_of_int s"
  using tag_size [of s al] by simp

lemma tag_alloc: "s mod 8 = 0 \<Longrightarrow> tag s al AND 1 = (if al then 1 else 0)"
  using aligned_alloc [OF low3_of_int, of s] aligned_or1_alloc [of "word_of_int s"]
  by (simp add: tag_def)

lemma uint_of_int32: "0 \<le> s \<Longrightarrow> s < 2 ^ 32 \<Longrightarrow> uint (word_of_int s :: u32) = s"
  by (simp add: uint_word_of_int take_bit_int_eq_self)

lemma sint_of_int32: "- (2 ^ 31) \<le> s \<Longrightarrow> s < 2 ^ 31 \<Longrightarrow> sint (word_of_int s :: u32) = s"
  by (simp add: signed_of_int signed_take_bit_int_eq_self)

lemma PACK_tag: "PACK (word_of_int s) 0 = tag s False" "PACK (word_of_int s) 1 = tag s True"
  by (simp_all add: PACK_def tag_def)

lemma tag_8: "tag 8 True = 9" "tag 0 True = 1"
  by (simp_all add: tag_def)

lemma totsize_simps [simp]:
  "totsize [] = 0" "totsize ((s, al) # bs) = s + totsize bs" "totsize (xs @ ys) = totsize xs + totsize ys"
  by (simp_all add: totsize_def)

lemma sizes_ok_simps [simp]:
  "sizes_ok []" "sizes_ok ((s, al) # bs) \<longleftrightarrow> 16 \<le> s \<and> s mod 8 = 0 \<and> sizes_ok bs"
  "sizes_ok (xs @ ys) \<longleftrightarrow> sizes_ok xs \<and> sizes_ok ys"
  by (auto simp add: sizes_ok_def)

lemma blocks_ok_simps [simp]:
  "blocks_ok m []"
  "blocks_ok m ((a, s, al) # L) \<longleftrightarrow> m (a - 4) = tag s al \<and> m (a + s - 8) = tag s al \<and> blocks_ok m L"
  "blocks_ok m (L1 @ L2) \<longleftrightarrow> blocks_ok m L1 \<and> blocks_ok m L2"
  by (simp_all add: blocks_ok_def ball_Un)

lemma layout_append [simp]: "layout a (xs @ ys) = layout a xs @ layout (a + totsize xs) ys"
  by (induction xs arbitrary: a) (auto simp add: add.assoc)

lemma totsize_nonneg: "sizes_ok bs \<Longrightarrow> 0 \<le> totsize bs"
  by (induction bs) auto

lemma totsize_mod8: "sizes_ok bs \<Longrightarrow> totsize bs mod 8 = 0"
proof (induction bs)
  case Nil
  then show ?case by simp
next
  case (Cons b bs)
  obtain t bl where b: "b = (t, bl)" by (cases b)
  with Cons have "t mod 8 = 0" "totsize bs mod 8 = 0" by simp_all
  then show ?case using b by simp presburger
qed

lemma in_layout_split:
  "(x, s, al) \<in> set (layout a bs) \<Longrightarrow> \<exists>pre post. bs = pre @ (s, al) # post \<and> x = a + totsize pre"
proof (induction bs arbitrary: a)
  case Nil
  then show ?case by simp
next
  case (Cons b bs)
  obtain t bl where b: "b = (t, bl)" by (cases b)
  show ?case
  proof (cases "(x, s, al) = (a, t, bl)")
    case True
    then have "b # bs = [] @ (s, al) # bs \<and> x = a + totsize []" using b by simp
    then show ?thesis by blast
  next
    case False
    then have "(x, s, al) \<in> set (layout (a + t) bs)" using Cons.prems b by auto
    from Cons.IH [OF this] obtain pre post where "bs = pre @ (s, al) # post" "x = a + t + totsize pre"
      by blast
    then have "b # bs = (b # pre) @ (s, al) # post \<and> x = a + totsize (b # pre)" using b by simp
    then show ?thesis by blast
  qed
qed

lemma in_layout_bounds:
  "sizes_ok bs \<Longrightarrow> (x, s, al) \<in> set (layout a bs) \<Longrightarrow>
     a \<le> x \<and> x + s \<le> a + totsize bs \<and> 16 \<le> s \<and> s mod 8 = 0 \<and> (x - a) mod 8 = 0"
proof (induction bs arbitrary: a)
  case Nil
  then show ?case by simp
next
  case (Cons b bs)
  obtain t bl where b: "b = (t, bl)" by (cases b)
  have t: "16 \<le> t" "t mod 8 = 0" and ok: "sizes_ok bs" using Cons.prems(1) b by auto
  show ?case
  proof (cases "(x, s, al) = (a, t, bl)")
    case True
    then show ?thesis using t totsize_nonneg [OF ok] b by auto
  next
    case False
    then have "(x, s, al) \<in> set (layout (a + t) bs)" using Cons.prems b by auto
    from Cons.IH [OF ok this] have "a + t \<le> x \<and> x + s \<le> a + t + totsize bs \<and> 16 \<le> s \<and> s mod 8 = 0 \<and> (x - (a + t)) mod 8 = 0"
      by simp
    then show ?thesis using t b by (simp add: algebra_simps) presburger
  qed
qed

lemma in_layout_disjoint:
  "sizes_ok bs \<Longrightarrow> (x, s, al) \<in> set (layout a bs) \<Longrightarrow> (y, t, bl) \<in> set (layout a bs) \<Longrightarrow>
     (x = y \<and> s = t \<and> al = bl) \<or> x + s \<le> y \<or> y + t \<le> x"
proof (induction bs arbitrary: a)
  case Nil
  then show ?case by simp
next
  case (Cons b bs)
  obtain u cl where b: "b = (u, cl)" by (cases b)
  have ok: "sizes_ok bs" using Cons.prems(1) b by auto
  consider (both) "(x, s, al) = (a, u, cl)" "(y, t, bl) = (a, u, cl)"
    | (fst) "(x, s, al) = (a, u, cl)" "(y, t, bl) \<in> set (layout (a + u) bs)"
    | (snd) "(y, t, bl) = (a, u, cl)" "(x, s, al) \<in> set (layout (a + u) bs)"
    | (tl) "(x, s, al) \<in> set (layout (a + u) bs)" "(y, t, bl) \<in> set (layout (a + u) bs)"
    using Cons.prems(2,3) b by auto
  then show ?case
  proof cases
    case both
    then show ?thesis by simp
  next
    case fst
    then show ?thesis using in_layout_bounds [OF ok fst(2)] by simp
  next
    case snd
    then show ?thesis using in_layout_bounds [OF ok snd(2)] by simp
  next
    case tl
    then show ?thesis using Cons.IH [OF ok] by blast
  qed
qed

lemma noadj_append:
  "noadj (xs @ ys) \<longleftrightarrow>
     noadj xs \<and> noadj ys \<and> (xs \<noteq> [] \<and> ys \<noteq> [] \<longrightarrow> snd (last xs) \<or> snd (hd ys))"
proof (induction xs rule: noadj.induct)
  case 1
  then show ?case by simp
next
  case (2 b)
  then show ?case by (cases ys; cases b) auto
next
  case (3 s al t bl bs)
  then show ?case by auto
qed

lemma seg_append:
  "seg m (xs @ ys) \<longleftrightarrow>
     seg m xs \<and> seg m ys \<and>
     (xs \<noteq> [] \<and> ys \<noteq> [] \<longrightarrow>
        sint (m (last xs + 4)) = hd ys - last xs \<and> sint (m (hd ys)) = last xs - hd ys)"
proof (induction xs rule: seg.induct)
  case (1 m a b r)
  then show ?case by auto
next
  case (2 m a)
  then show ?case by (cases ys) auto
next
  case (3 m)
  then show ?case by simp
qed

lemma in_set_tl: "a \<in> set (tl xs) \<Longrightarrow> a \<in> set xs"
  by (cases xs) auto

lemma seg_cong:
  "(\<forall>a \<in> set xs. m' (a + 4) = m (a + 4)) \<Longrightarrow> (\<forall>a \<in> set (tl xs). m' a = m a) \<Longrightarrow>
     seg m' xs = seg m xs"
  by (induction xs rule: seg.induct) auto

lemma links_cong:
  "(\<forall>a \<in> set xs. m' (a + 4) = m (a + 4)) \<Longrightarrow> (\<forall>a \<in> set (tl xs). m' a = m a) \<Longrightarrow>
     links m' xs = links m xs"
  using seg_cong [of xs m' m] by (cases "xs = []") (auto simp add: links_def)

lemma same_frame_refl [simp]: "same_frame h h"
  by (simp add: same_frame_def)

lemma same_frame_trans: "same_frame h h1 \<Longrightarrow> same_frame h1 h2 \<Longrightarrow> same_frame h h2"
  by (simp add: same_frame_def)

lemma same_frame_upd [simp]:
  "same_frame h (h'\<lparr>mem := m\<rparr>) = same_frame h h'"
  "same_frame h (h'\<lparr>classes := c\<rparr>) = same_frame h h'"
  by (simp_all add: same_frame_def)

lemma same_frame_ok:
  "same_frame h h' \<Longrightarrow> word_ok h' p = word_ok h p"
  "same_frame h h' \<Longrightarrow> class_ok h' k = class_ok h k"
  "same_frame h h' \<Longrightarrow> static h' = static h"
  by (simp_all add: same_frame_def word_ok_def class_ok_def static_def)

text \<open>Facts about a block of the heap.\<close>

lemma block_facts:
  assumes "Chain h bs" and "(x, s, al) \<in> set (lay h bs)"
  shows "x mod 8 = 0" "heap_listp h + 8 \<le> x" "x + s \<le> mem_brk h" "16 \<le> s" "s mod 8 = 0"
    "s < 2 ^ 31" "0 < x" "m = mem h \<Longrightarrow> m (x - 4) = tag s al" "m = mem h \<Longrightarrow> m (x + s - 8) = tag s al"
proof -
  have st: "static h" and ok: "sizes_ok bs" and e: "heap_listp h + 8 + totsize bs = mem_brk h"
    and b: "blocks_ok (mem h) (lay h bs)"
    using assms(1) by (simp_all add: Chain_def)
  note g = in_layout_bounds [OF ok assms(2)]
  show "heap_listp h + 8 \<le> x" "x + s \<le> mem_brk h" "16 \<le> s" "s mod 8 = 0"
    using g e by simp_all
  have "ptr_classes h mod 8 = 0" "heap_listp h = ptr_classes h + 64" "0 \<le> ptr_classes h"
    "mem_brk h - ptr_classes h < 2 ^ 31"
    using st by (simp_all add: static_def class_ok_def)
  with g e show "x mod 8 = 0" "s < 2 ^ 31" "0 < x"
    by (simp_all) presburger
  show "m = mem h \<Longrightarrow> m (x - 4) = tag s al" "m = mem h \<Longrightarrow> m (x + s - 8) = tag s al"
    using b assms(2) by (auto simp add: blocks_ok_def)
qed

lemma chain_bounds:
  assumes "Chain h bs"
  shows "heap_listp h mod 8 = 0" "mem_brk h mod 8 = 0" "heap_listp h + 8 \<le> mem_brk h"
    "0 < heap_listp h"
proof -
  have st: "static h" and e: "heap_listp h + 8 + totsize bs = mem_brk h" and ok: "sizes_ok bs"
    using assms by (simp_all add: Chain_def)
  have p: "ptr_classes h mod 8 = 0" "heap_listp h = ptr_classes h + 64" "0 \<le> ptr_classes h"
    using st by (simp_all add: static_def class_ok_def)
  show "heap_listp h mod 8 = 0" "0 < heap_listp h" using p by presburger+
  then show "mem_brk h mod 8 = 0" "heap_listp h + 8 \<le> mem_brk h"
    using totsize_mod8 [OF ok] totsize_nonneg [OF ok] e by presburger+
qed

lemma word_ok_heap:
  assumes "static h" "heap_listp h - 4 \<le> p" "p + 4 \<le> mem_brk h" "p mod 4 = 0"
  shows "word_ok h p"
  using assms by (simp add: static_def class_ok_def word_ok_def)

lemma block_word_ok:
  assumes "Chain h bs" and "(x, s, al) \<in> set (lay h bs)"
  shows "word_ok h (x - 4)" "word_ok h x" "word_ok h (x + 4)" "word_ok h (x + s - 8)"
    "word_ok h (x + s - 4)" "word_ok h (x - 8)"
proof -
  have st: "static h" using assms(1) by (simp add: Chain_def)
  note f = block_facts [OF assms]
  have a: "(x - 4) mod 4 = 0" "x mod 4 = 0" "(x + 4) mod 4 = 0" "(x + s - 8) mod 4 = 0"
    "(x + s - 4) mod 4 = 0" "(x - 8) mod 4 = 0"
    using f(1,5) by presburger+
  show "word_ok h (x - 4)" "word_ok h x" "word_ok h (x + 4)" "word_ok h (x + s - 8)"
    "word_ok h (x + s - 4)" "word_ok h (x - 8)"
    using f(2,3,4) a by (auto intro!: word_ok_heap [OF st])
qed

lemma uint_size_minus8: "8 \<le> s \<Longrightarrow> s < 2 ^ 32 \<Longrightarrow> uint ((word_of_int s :: u32) - 8) = s - 8"
proof -
  assume a: "8 \<le> s" "s < 2 ^ 32"
  have "(word_of_int s :: u32) - 8 = word_of_int (s - 8)" by simp
  then show ?thesis using a by (simp only: uint_of_int32)
qed

lemma block_reads:
  assumes "Chain h bs" and "(x, s, al) \<in> set (lay h bs)"
  shows "GET h (x - 4) = Some (tag s al)" "GET h (x + s - 8) = Some (tag s al)"
    "GET_SIZE h (x - 4) = Some (word_of_int s)" "GET_SIZE h (x + s - 8) = Some (word_of_int s)"
    "GET_ALLOC h (x - 4) = Some (if al then 1 else 0)"
    "GET_ALLOC h (x + s - 8) = Some (if al then 1 else 0)"
    "NEXT_BLKP h x = Some (x + s)" "FTRP h x = Some (x + s - 8)"
    "PREV_BLKP h (x + s) = Some x"
proof -
  note f = block_facts [OF assms] and w = block_word_ok [OF assms]
  have u: "uint (word_of_int s :: u32) = s" "uint ((word_of_int s :: u32) - 8) = s - 8"
    using f(4,6) by (simp_all add: uint_of_int32 uint_size_minus8)
  show "GET h (x - 4) = Some (tag s al)" "GET h (x + s - 8) = Some (tag s al)"
    using w f(8,9) by (simp_all add: GET_def)
  then show "GET_SIZE h (x - 4) = Some (word_of_int s)" "GET_SIZE h (x + s - 8) = Some (word_of_int s)"
    "GET_ALLOC h (x - 4) = Some (if al then 1 else 0)"
    "GET_ALLOC h (x + s - 8) = Some (if al then 1 else 0)"
    using f(5) by (simp_all add: GET_SIZE_def GET_ALLOC_def tag_size' tag_alloc)
  then show "NEXT_BLKP h x = Some (x + s)" "FTRP h x = Some (x + s - 8)" "PREV_BLKP h (x + s) = Some x"
    using u by (simp_all add: NEXT_BLKP_def FTRP_def HDRP_def PREV_BLKP_def)
qed

lemma prologue_reads:
  assumes "Chain h bs"
  shows "PREV_BLKP h (heap_listp h + 8) = Some (heap_listp h)"
    "FTRP h (heap_listp h) = Some (heap_listp h)" "GET_ALLOC h (heap_listp h) = Some 1"
proof -
  have st: "static h" and p: "mem h (heap_listp h - 4) = 9" "mem h (heap_listp h) = 9"
    and e: "heap_listp h + 8 + totsize bs = mem_brk h" and ok: "sizes_ok bs"
    using assms by (simp_all add: Chain_def)
  have al: "heap_listp h mod 4 = 0" "(heap_listp h - 4) mod 4 = 0"
    using st by (simp_all add: static_def class_ok_def) presburger+
  have w: "word_ok h (heap_listp h)" "word_ok h (heap_listp h - 4)"
    using totsize_nonneg [OF ok] e al by (auto intro!: word_ok_heap [OF st])
  have n: "(9 :: u32) AND NOT 7 = 8" "(9 :: u32) AND 1 = 1" by simp_all
  show "PREV_BLKP h (heap_listp h + 8) = Some (heap_listp h)"
    "FTRP h (heap_listp h) = Some (heap_listp h)" "GET_ALLOC h (heap_listp h) = Some 1"
    using w p n by (simp_all add: PREV_BLKP_def FTRP_def GET_ALLOC_def GET_SIZE_def GET_def HDRP_def)
qed

lemma epilogue_reads:
  assumes "Chain h bs"
  shows "GET_ALLOC h (mem_brk h - 4) = Some 1" "GET_SIZE h (mem_brk h - 4) = Some 0"
proof -
  have st: "static h" and p: "mem h (mem_brk h - 4) = 1"
    and e: "heap_listp h + 8 + totsize bs = mem_brk h" and ok: "sizes_ok bs"
    using assms by (simp_all add: Chain_def)
  have al: "(mem_brk h - 4) mod 4 = 0"
    using chain_bounds(2) [OF assms] by presburger
  have w: "word_ok h (mem_brk h - 4)"
    using totsize_nonneg [OF ok] e al by (auto intro!: word_ok_heap [OF st])
  show "GET_ALLOC h (mem_brk h - 4) = Some 1" "GET_SIZE h (mem_brk h - 4) = Some 0"
    using w p by (simp_all add: GET_ALLOC_def GET_SIZE_def GET_def)
qed

lemma layout_mid:
  "layout a (pre @ (s, al) # post) =
     layout a pre @ (a + totsize pre, s, al) # layout (a + totsize pre + s) post"
  by simp

lemma in_layout_mid [simp]: "(a + totsize pre, s, al) \<in> set (layout a (pre @ (s, al) # post))"
  by simp

lemma in_layout_next:
  "(a + totsize pre + s, u, cl) \<in> set (layout a (pre @ (s, al) # (u, cl) # post))"
  by simp

lemma in_layout_prev:
  "(a + totsize pre, t, bl) \<in> set (layout a (pre @ (t, bl) # (s, al) # post))"
  by simp

lemma layout_same_addr:
  assumes "sizes_ok bs" "(x, s, al) \<in> set (layout a bs)" "(x, t, bl) \<in> set (layout a bs)"
  shows "s = t \<and> al = bl"
  using in_layout_disjoint [OF assms] in_layout_bounds [OF assms(1,2)] in_layout_bounds [OF assms(1,3)]
  by auto

lemma link_word_not_hf:
  assumes "Chain h bs" "(a, s, al) \<in> set (lay h bs)" "p = a \<or> p = a + 4"
  shows "p \<noteq> heap_listp h - 4" "p \<noteq> heap_listp h" "p \<noteq> mem_brk h - 4"
    "(y, t, bl) \<in> set (lay h bs) \<Longrightarrow> p \<noteq> y - 4 \<and> p \<noteq> y + t - 8"
proof -
  note f = block_facts [OF assms(1,2)]
  show "p \<noteq> heap_listp h - 4" "p \<noteq> heap_listp h" "p \<noteq> mem_brk h - 4"
    using f(2,3,4) assms(3) by auto
  assume y: "(y, t, bl) \<in> set (lay h bs)"
  note g = block_facts [OF assms(1) y]
  have ok: "sizes_ok bs" using assms(1) by (simp add: Chain_def)
  from in_layout_disjoint [OF ok assms(2) y]
  show "p \<noteq> y - 4 \<and> p \<noteq> y + t - 8"
    using f(1,4,5) g(1,4,5) assms(3) by (elim disjE) presburger+
qed

lemma Chain_frame:
  assumes "Chain h bs" "same_frame h h'"
    and "\<And>y t bl. (y, t, bl) \<in> set (lay h bs) \<Longrightarrow>
          mem h' (y - 4) = mem h (y - 4) \<and> mem h' (y + t - 8) = mem h (y + t - 8)"
    and "mem h' (heap_listp h - 4) = mem h (heap_listp h - 4)"
      "mem h' (heap_listp h) = mem h (heap_listp h)" "mem h' (mem_brk h - 4) = mem h (mem_brk h - 4)"
  shows "Chain h' bs"
proof -
  have eq: "heap_listp h' = heap_listp h" "mem_brk h' = mem_brk h"
    using assms(2) by (simp_all add: same_frame_def)
  have "blocks_ok (mem h') (lay h bs)"
    using assms(1,3) by (auto simp add: Chain_def blocks_ok_def)
  then show ?thesis
    using assms(1,4,5,6) same_frame_ok(3) [OF assms(2)] by (simp add: Chain_def eq)
qed

lemma Chain_link_upd:
  assumes "Chain h bs" "same_frame h h'"
    and "\<And>p. mem h' p \<noteq> mem h p \<Longrightarrow> \<exists>a s al. (a, s, al) \<in> set (lay h bs) \<and> (p = a \<or> p = a + 4)"
  shows "Chain h' bs"
proof (rule Chain_frame [OF assms(1,2)])
  fix y t bl
  assume y: "(y, t, bl) \<in> set (lay h bs)"
  show "mem h' (y - 4) = mem h (y - 4) \<and> mem h' (y + t - 8) = mem h (y + t - 8)"
    using assms(3) [of "y - 4"] assms(3) [of "y + t - 8"] link_word_not_hf(4) [OF assms(1) _ _ y]
    by blast
next
  show "mem h' (heap_listp h - 4) = mem h (heap_listp h - 4)"
    using assms(3) [of "heap_listp h - 4"] link_word_not_hf(1) [OF assms(1)] by blast
  show "mem h' (heap_listp h) = mem h (heap_listp h)"
    using assms(3) [of "heap_listp h"] link_word_not_hf(2) [OF assms(1)] by blast
  show "mem h' (mem_brk h - 4) = mem h (mem_brk h - 4)"
    using assms(3) [of "mem_brk h - 4"] link_word_not_hf(3) [OF assms(1)] by blast
qed

lemma member_facts:
  assumes "Chain h bs" "Lists h bs F X" "k < 7" "a \<in> set (F k)"
  obtains s where "(a, s, False) \<in> set (lay h bs)" "bucket_of s = k" "a \<notin> X" "a mod 8 = 0"
    "word_ok h a" "word_ok h (a + 4)" "heap_listp h + 8 \<le> a" "a < mem_brk h" "0 < a"
proof -
  from assms(2,3,4) obtain s where s: "(a, s, False) \<in> set (lay h bs)" "bucket_of s = k" "a \<notin> X"
    by (auto simp add: Lists_def)
  note f = block_facts [OF assms(1) s(1)] and w = block_word_ok [OF assms(1) s(1)]
  show ?thesis
    using s f w by (intro that [of s]) auto
qed

lemma member_unique:
  assumes "Chain h bs" "Lists h bs F X" "j < 7" "k < 7" "a \<in> set (F j)" "a \<in> set (F k)"
  shows "j = k"
proof -
  from member_facts [OF assms(1,2,3,5)] obtain s where s: "(a, s, False) \<in> set (lay h bs)" "bucket_of s = j"
    by blast
  from member_facts [OF assms(1,2,4,6)] obtain t where t: "(a, t, False) \<in> set (lay h bs)" "bucket_of t = k"
    by blast
  have ok: "sizes_ok bs" using assms(1) by (simp add: Chain_def)
  show ?thesis using layout_same_addr [OF ok s(1) t(1)] s(2) t(2) by simp
qed

lemma heap_ptrdiff:
  assumes "Chain h bs" "heap_listp h \<le> a" "a \<le> mem_brk h" "heap_listp h \<le> b" "b \<le> mem_brk h"
  shows "sint (ptrdiff a b) = a - b"
proof -
  have "static h" using assms(1) by (simp add: Chain_def)
  then have "mem_brk h - heap_listp h < 2 ^ 31"
    by (simp add: static_def class_ok_def)
  then show ?thesis
    using assms(2-) by (intro sint_ptrdiff) (simp add: abs_less_iff)
qed

lemma ball_tripleI: "(\<And>a s al. (a, s, al) \<in> A \<Longrightarrow> P a s al) \<Longrightarrow> \<forall>(a, s, al) \<in> A. P a s al"
  by auto

lemma aligned_ne:
  "a mod 8 = 0 \<Longrightarrow> b mod 8 = 0 \<Longrightarrow> a + 4 \<noteq> (b :: int)"
  by presburger

lemma append_in_PInv:
  assumes "PInv h bs F X" "(x, s, False) \<in> set (lay h bs)" "x \<in> X" "bucket_of s = k"
  shows "\<exists>h'. append_in h k x = Some h' \<and> PInv h' bs (F(k := x # F k)) (X - {x}) \<and> same_frame h h'"
proof -
  have C: "Chain h bs" and L: "Lists h bs F X" using assms(1) by (simp_all add: PInv_def)
  have k: "k < 7" using assms(4) bucket_of_lt7 [of s] by simp
  have st: "static h" using C by (simp add: Chain_def)
  have ck: "class_ok h k" using st k by (simp add: static_def class_ok_def)
  note xf = block_facts [OF C assms(2)] and xw = block_word_ok [OF C assms(2)]
  have hd: "classes h k = (case F k of [] \<Rightarrow> 0 | a # r \<Rightarrow> a)" and lk: "links (mem h) (F k)"
    and dk: "distinct (F k)"
    using L k by (simp_all add: Lists_def)
  have xn: "x \<notin> set (F j)" if "j < 7" for j
    using L that assms(3) by (auto simp add: Lists_def)
  define m' where "m' = (if classes h k \<noteq> 0
       then (mem h)(x := 0, x + 4 := ptrdiff (classes h k) x, classes h k := ptrdiff x (classes h k))
       else (mem h)(x := 0, x + 4 := 0))"
  define h' where "h' = h\<lparr>mem := m', classes := (classes h)(k := x)\<rparr>"
  have sf: "same_frame h h'" by (simp add: h'_def)
  have lay: "lay h' bs = lay h bs" by (simp add: h'_def)
  have c0: "classes h k \<noteq> 0 \<longleftrightarrow> F k \<noteq> []"
  proof (cases "F k")
    case Nil
    then show ?thesis using hd by simp
  next
    case (Cons a r)
    then have "a \<in> set (F k)" by simp
    from member_facts [OF C L k this] have "0 < a" by blast
    then show ?thesis using hd Cons by simp
  qed
  have cm: "classes h k \<in> set (F k)" if "F k \<noteq> []"
    using that hd by (cases "F k") simp_all
  have wc: "classes h k \<noteq> 0 \<longrightarrow> word_ok h (classes h k)"
    using c0 cm member_facts [OF C L k] by blast
  have run: "append_in h k x = Some h'"
    using ck xw(2,3) wc by (simp add: append_in_eq_Some h'_def m'_def)
  have mod: "\<exists>a s al. (a, s, al) \<in> set (lay h bs) \<and> (p = a \<or> p = a + 4)" if "mem h' p \<noteq> mem h p" for p
  proof -
    from that have "p = x \<or> p = x + 4 \<or> (classes h k \<noteq> 0 \<and> p = classes h k)"
      by (auto simp add: h'_def m'_def split: if_splits)
    moreover have "\<exists>s. (classes h k, s, False) \<in> set (lay h bs)" if "classes h k \<noteq> 0"
      using that c0 cm member_facts [OF C L k] by blast
    ultimately show ?thesis using assms(2) by blast
  qed
  have C': "Chain h' bs" using C sf mod by (rule Chain_link_upd)
  have other: "mem h' a = mem h a \<and> mem h' (a + 4) = mem h (a + 4)"
    if "j < 7" "a \<in> set (F j)" "a \<noteq> classes h k" for j a
  proof -
    from member_facts [OF C L that(1,2)] have a: "a mod 8 = 0" "a \<notin> X" by blast+
    have c8: "classes h k mod 8 = 0" if "classes h k \<noteq> 0"
      using that c0 cm member_facts [OF C L k] by blast
    have "a \<noteq> x" using a(2) assms(3) by auto
    moreover have "a \<noteq> x + 4" "a + 4 \<noteq> x" using a(1) xf(1) by presburger+
    moreover have "classes h k \<noteq> 0 \<Longrightarrow> a + 4 \<noteq> classes h k" using a(1) c8 by presburger
    ultimately show ?thesis using that(3) by (simp add: h'_def m'_def)
  qed
  have Lk: "links (mem h') (x # F k)"
  proof (cases "F k")
    case Nil
    then show ?thesis using c0 by (simp add: links_def h'_def m'_def)
  next
    case (Cons c r)
    then have c: "classes h k = c" "c \<noteq> 0" "c \<in> set (F k)" using hd c0 by simp_all
    from member_facts [OF C L k c(3)] obtain t where t: "c mod 8 = 0" "heap_listp h + 8 \<le> c" "c < mem_brk h"
      by blast
    have cx: "c \<noteq> x + 4" "c + 4 \<noteq> x" "c \<noteq> x" using t(1) xf(1) xn [OF k] c(3) by (presburger, presburger, auto)
    have s1: "sint (mem h' (x + 4)) = c - x"
      using heap_ptrdiff [OF C, of c x] t xf(2,3,4) c cx by (simp add: h'_def m'_def)
    have s2: "sint (mem h' c) = x - c"
      using heap_ptrdiff [OF C, of x c] t xf(2,3,4) c by (simp add: h'_def m'_def)
    have r: "a \<noteq> c" if "a \<in> set r" for a using dk Cons that by auto
    have "seg (mem h') (c # r) = seg (mem h) (c # r)"
    proof (rule seg_cong)
      show "\<forall>a\<in>set (c # r). mem h' (a + 4) = mem h (a + 4)"
      proof
        fix a assume a: "a \<in> set (c # r)"
        then have "a \<in> set (F k)" using Cons by simp
        from member_facts [OF C L k this] have "a mod 8 = 0" "a \<notin> X" by blast+
        then have "a + 4 \<noteq> x" "a + 4 \<noteq> x + 4" "a + 4 \<noteq> c" using xf(1) t(1) assms(3) by (presburger, auto, presburger)
        then show "mem h' (a + 4) = mem h (a + 4)" using c by (simp add: h'_def m'_def)
      qed
      show "\<forall>a\<in>set (tl (c # r)). mem h' a = mem h a"
        using other [OF k] r Cons c by auto
    qed
    moreover have "mem h' (last (c # r) + 4) = mem h (last (c # r) + 4)"
    proof -
      have "last (c # r) \<in> set (F k)" using Cons last_in_set [of "c # r"] by simp
      from member_facts [OF C L k this] have "last (c # r) mod 8 = 0" "last (c # r) \<notin> X" by blast+
      then have "last (c # r) + 4 \<noteq> x" "last (c # r) + 4 \<noteq> x + 4" "last (c # r) + 4 \<noteq> c"
        using xf(1) t(1) assms(3) by (presburger, auto, presburger)
      then show ?thesis using c by (simp add: h'_def m'_def)
    qed
    ultimately show ?thesis using lk s1 s2 Cons by (simp add: links_def)
  qed
  have L': "Lists h' bs (F(k := x # F k)) (X - {x})"
    unfolding Lists_def lay
  proof (intro conjI allI impI)
    fix j :: nat assume j: "j < 7"
    show "classes h' j = (case (F(k := x # F k)) j of [] \<Rightarrow> 0 | a # r \<Rightarrow> a)"
      using L j by (simp add: h'_def Lists_def)
    show "links (mem h') ((F(k := x # F k)) j)"
    proof (cases "j = k")
      case True
      then show ?thesis using Lk by simp
    next
      case False
      have "a \<noteq> classes h k" if "a \<in> set (F j)" for a
      proof
        assume "a = classes h k"
        moreover from that member_facts [OF C L j] have "0 < a" by blast
        ultimately have "a \<in> set (F k)" using cm c0 by auto
        then show False using member_unique [OF C L j k that] False by simp
      qed
      then have "links (mem h') (F j) = links (mem h) (F j)"
        using other [OF j] by (intro links_cong) (auto dest: in_set_tl)
      then show ?thesis using False L j by (simp add: Lists_def)
    qed
    show "distinct ((F(k := x # F k)) j)"
      using L j xn [OF k] by (simp add: Lists_def)
    show "\<forall>a\<in>set ((F(k := x # F k)) j). a \<notin> X - {x} \<and> (\<exists>s. (a, s, False) \<in> set (lay h bs) \<and> bucket_of s = j)"
      using L j assms(2,4) by (auto simp add: Lists_def)
  next
    show "\<forall>(a, s, al)\<in>set (lay h bs). \<not> al \<longrightarrow> a \<in> X - {x} \<or> a \<in> set ((F(k := x # F k)) (bucket_of s))"
    proof -
      have *: "a \<in> X - {x} \<or> a \<in> set ((F(k := x # F k)) (bucket_of t))"
        if a: "(a, t, False) \<in> set (lay h bs)" for a t
      proof (cases "a = x")
        case True
        have ok: "sizes_ok bs" using C by (simp add: Chain_def)
        have "t = s" using layout_same_addr [OF ok a] assms(2) True by auto
        then show ?thesis using assms(4) True by simp
      next
        case False
        moreover have "a \<in> X \<or> a \<in> set (F (bucket_of t))" using L a by (auto simp add: Lists_def)
        ultimately show ?thesis by (cases "bucket_of t = k") auto
      qed
      show ?thesis
      proof (intro ball_tripleI impI)
        fix a t al assume "(a, t, al) \<in> set (lay h bs)" "\<not> al"
        then have "(a, t, False) \<in> set (lay h bs)" by simp
        then show "a \<in> X - {x} \<or> a \<in> set ((F(k := x # F k)) (bucket_of t))" by (rule *)
      qed
    qed
  qed
  show ?thesis using run C' L' sf by (auto simp add: PInv_def)
qed

lemma al4:
  "a mod 8 = 0 \<Longrightarrow> b mod 8 = 0 \<Longrightarrow> a + 4 \<noteq> (b :: int)"
  "a mod 8 = 0 \<Longrightarrow> b mod 8 = 0 \<Longrightarrow> a \<noteq> b + (4 :: int)"
  by presburger+

lemma links_tail: "links m (y # ys) \<Longrightarrow> links m ys"
  by (cases ys) (auto simp add: links_def)

lemma links_delete_last:
  assumes "links m (xs @ [q, y])" "distinct (xs @ [q, y])" "\<forall>a \<in> set (xs @ [q, y]). a mod 8 = 0"
  shows "links (m(q + 4 := 0)) (xs @ [q])"
proof -
  have s: "seg m (xs @ [q])"
    using assms(1) seg_append [of m "xs @ [q]" "[y]"] by (simp add: links_def)
  have q8: "q mod 8 = 0" using assms(3) by simp
  have nx: "a \<noteq> q + 4 \<and> a \<noteq> q" if "a \<in> set xs" for a
    using that assms(2,3) al4(2) [of a q] q8 by auto
  have "seg (m(q + 4 := 0)) (xs @ [q]) = seg m (xs @ [q])"
  proof (cases xs rule: rev_cases)
    case Nil
    then show ?thesis by simp
  next
    case (snoc xs' p)
    have p: "p \<noteq> q" "p + 4 \<noteq> q + 4" "q \<noteq> q + 4" using assms(2) snoc by auto
    have "seg (m(q + 4 := 0)) xs = seg m xs"
    proof (rule seg_cong)
      show "\<forall>a\<in>set xs. (m(q + 4 := 0)) (a + 4) = m (a + 4)" using nx by auto
      show "\<forall>a\<in>set (tl xs). (m(q + 4 := 0)) a = m a"
        using nx by (auto dest!: in_set_tl)
    qed
    then show ?thesis
      using p snoc seg_append [of m xs "[q]"] seg_append [of "m(q + 4 := 0)" xs "[q]"] by simp
  qed
  then show ?thesis using s by (simp add: links_def)
qed

lemma links_delete_mid:
  assumes "links m (xs @ q # y # z # zs)" "distinct (xs @ q # y # z # zs)"
    "\<forall>a \<in> set (xs @ q # y # z # zs). a mod 8 = 0"
    and "sint w1 = z - q" "sint w2 = q - z"
  shows "links (m(q + 4 := w1, z := w2)) (xs @ q # z # zs)"
proof -
  let ?m = "m(q + 4 := w1, z := w2)"
  have q8: "q mod 8 = 0" and z8: "z mod 8 = 0"
    using assms(3) by auto
  have d: "q \<noteq> z" "q \<notin> set xs" "z \<notin> set xs" "q \<notin> set zs" "z \<notin> set zs"
    using assms(2) by auto
  have nx: "a \<noteq> q + 4 \<and> a \<noteq> q \<and> a \<noteq> z \<and> a + 4 \<noteq> z" if "a \<in> set xs \<or> a \<in> set zs" for a
  proof -
    have "a mod 8 = 0" using that assms(3) by auto
    then show ?thesis using that d al4 [of a q] al4 [of a z] q8 z8 by auto
  qed
  have nz: "z \<noteq> q + 4" "z + 4 \<noteq> q + 4" "q + 4 \<noteq> z" "q \<noteq> q + 4"
    using al4 [of z q] al4 [of q z] q8 z8 d(1) by auto
  have s: "seg m (xs @ [q])" "seg m (z # zs)"
    using assms(1) seg_append [of m "xs @ [q]" "y # z # zs"] by (simp_all add: links_def)
  have e: "m (last (z # zs) + 4) = 0" using assms(1) by (simp add: links_def)
  have 1: "seg ?m (z # zs) = seg m (z # zs)"
  proof (rule seg_cong)
    show "\<forall>a\<in>set (z # zs). ?m (a + 4) = m (a + 4)"
      using nx nz by auto
    show "\<forall>a\<in>set (tl (z # zs)). ?m a = m a"
      using nx by auto
  qed
  have 2: "seg ?m (xs @ [q]) = seg m (xs @ [q])"
  proof (cases xs rule: rev_cases)
    case Nil
    then show ?thesis by simp
  next
    case (snoc xs' p)
    have p: "p \<noteq> q" "p \<noteq> z" "p + 4 \<noteq> z" using nx [of p] snoc by auto
    have "seg ?m xs = seg m xs"
    proof (rule seg_cong)
      show "\<forall>a\<in>set xs. ?m (a + 4) = m (a + 4)" using nx by auto
      show "\<forall>a\<in>set (tl xs). ?m a = m a"
        using nx by (auto dest!: in_set_tl)
    qed
    then show ?thesis
      using p nz d(1) snoc seg_append [of m xs "[q]"] seg_append [of ?m xs "[q]"] by simp
  qed
  have 3: "sint (?m (q + 4)) = z - q" "sint (?m z) = q - z"
    using assms(4,5) nz by simp_all
  have 4: "?m (last (z # zs) + 4) = 0"
  proof -
    have "last (z # zs) \<in> set (z # zs)" by (rule last_in_set) simp
    then have "last (z # zs) + 4 \<noteq> q + 4" "last (z # zs) + 4 \<noteq> z"
      using nx [of "last (z # zs)"] nz d(1) by auto
    then show ?thesis using e by simp
  qed
  have "seg ?m ((xs @ [q]) @ (z # zs))"
    unfolding seg_append [of ?m "xs @ [q]" "z # zs"] using 1 2 3 s by simp
  then show ?thesis using 4 by (simp add: links_def)
qed

lemma delete_in_PInv:
  assumes "PInv h bs F X" "(y, t, False) \<in> set (lay h bs)" "y \<notin> X" "bucket_of t = k"
  shows "\<exists>h'. delete_in h k y = Some h' \<and> PInv h' bs (F(k := remove1 y (F k))) (insert y X) \<and>
           same_frame h h'"
proof -
  have C: "Chain h bs" and L: "Lists h bs F X" using assms(1) by (simp_all add: PInv_def)
  have k: "k < 7" using assms(4) bucket_of_lt7 [of t] by simp
  have st: "static h" using C by (simp add: Chain_def)
  have ck: "class_ok h k" using st k by (simp add: static_def class_ok_def)
  have hd: "classes h k = (case F k of [] \<Rightarrow> 0 | a # r \<Rightarrow> a)" and lk: "links (mem h) (F k)"
    and dk: "distinct (F k)"
    using L k by (simp_all add: Lists_def)
  have "y \<in> set (F k)" using L assms(2,3,4) by (auto simp add: Lists_def)
  then obtain xs ys where F: "F k = xs @ y # ys" by (auto dest: split_list)
  have d: "y \<notin> set xs" "y \<notin> set ys" "distinct xs" "distinct ys" "set xs \<inter> set ys = {}"
    using dk F by auto
  have rm: "remove1 y (F k) = xs @ ys" using F d by (simp add: remove1_append)
  have mem8: "a mod 8 = 0" and memw: "word_ok h a" "word_ok h (a + 4)"
    and memb: "heap_listp h + 8 \<le> a" "a < mem_brk h" if "a \<in> set (F k)" for a
    using member_facts [OF C L k that] by blast+
  have al: "\<forall>a \<in> set (F k). a mod 8 = 0" using mem8 by blast
  define q where "q = last xs"
  define z where "z = hd ys"
  have qm: "q \<in> set (F k)" if "xs \<noteq> []" using that F by (simp add: q_def)
  have zm: "z \<in> set (F k)" if "ys \<noteq> []" using that F by (simp add: z_def)
  have ym: "y \<in> set (F k)" using F by simp
  define m' where "m' = (if xs = [] then mem h else if ys = [] then (mem h)(q + 4 := 0)
      else (mem h)(q + 4 := ptrdiff z q, z := ptrdiff q z))"
  define c' where "c' = (if xs = [] then (classes h)(k := (if ys = [] then 0 else z)) else classes h)"
  have succ0: "mem h (y + 4) = 0" if "ys = []"
    using lk F that by (simp add: links_def)
  have succ: "sint (mem h (y + 4)) = z - y" "mem h (y + 4) \<noteq> 0" if "ys \<noteq> []"
  proof -
    from that obtain zs where ys: "ys = z # zs" by (cases ys) (auto simp add: z_def)
    then have "seg (mem h) (xs @ y # z # zs)" using lk F by (simp add: links_def)
    then show "sint (mem h (y + 4)) = z - y" by (simp add: seg_append)
    moreover have "z \<noteq> y" using d(2) ys by auto
    ultimately show "mem h (y + 4) \<noteq> 0" by auto
  qed
  have pred: "sint (mem h y) = q - y" if "xs \<noteq> []"
  proof -
    have "seg (mem h) (xs @ y # ys)" using lk F by (simp add: links_def)
    then show ?thesis using that by (simp add: seg_append q_def)
  qed
  have hdx: "classes h k = (if xs = [] then y else hd xs)"
    using hd F by (cases xs) simp_all
  have ney: "classes h k \<noteq> y" if "xs \<noteq> []"
    using that hdx d(1) hd_in_set [of xs] by auto
  have run: "\<exists>h'. delete_in h k y = Some h' \<and> mem h' = m' \<and> classes h' = c' \<and> same_frame h h'"
  proof (cases "xs = []")
    case True
    show ?thesis
    proof (cases "ys = []")
      case True
      then show ?thesis
        using \<open>xs = []\<close> hdx ck memw [OF ym] succ0
        by (simp add: delete_in_def get_class_def GET_def set_class_def m'_def c'_def)
    next
      case False
      then show ?thesis
        using \<open>xs = []\<close> hdx ck memw [OF ym] succ
        by (simp add: delete_in_def get_class_def GET_def set_class_def SUCC_def GET_I_def m'_def c'_def)
    qed
  next
    case False
    note x = False
    have qy: "q + 4 \<noteq> y + 4" "y \<noteq> q + 4"
      using d(1) qm [OF x] al4 [of y q] mem8 [OF ym] mem8 [OF qm [OF x]] x by (auto simp add: q_def)
    show ?thesis
    proof (cases "ys = []")
      case True
      then show ?thesis
        using x ney ck memw [OF ym] memw [OF qm [OF x]] succ0 pred
        by (simp add: delete_in_def get_class_def GET_def PRED_def GET_I_def PUT_def m'_def c'_def)
    next
      case False
      then show ?thesis
        using x ney ck memw [OF ym] memw [OF qm [OF x]] memw [OF zm [OF False]] succ pred qy
        by (simp add: delete_in_def get_class_def GET_def PRED_def SUCC_def GET_I_def PUT_def
            m'_def c'_def)
    qed
  qed
  then obtain h' where run: "delete_in h k y = Some h'" and m: "mem h' = m'" and c: "classes h' = c'"
    and sf: "same_frame h h'"
    by blast
  have lay: "lay h' bs = lay h bs" using sf by (simp add: same_frame_def)
  have mod: "\<exists>a s al. (a, s, al) \<in> set (lay h bs) \<and> (p = a \<or> p = a + 4)" if "mem h' p \<noteq> mem h p" for p
  proof -
    from that have "xs \<noteq> [] \<and> (p = q + 4 \<or> (ys \<noteq> [] \<and> p = z))"
      by (auto simp add: m m'_def split: if_splits)
    then show ?thesis using qm zm member_facts [OF C L k] by metis
  qed
  have C': "Chain h' bs" using C sf mod by (rule Chain_link_upd)
  have Lk: "links m' (xs @ ys)"
  proof (cases "xs = []")
    case True
    then show ?thesis using lk F links_tail [of "mem h" y ys] by (simp add: m'_def)
  next
    case False
    then obtain xs' where xs: "xs = xs' @ [q]" by (cases xs rule: rev_cases) (auto simp add: q_def)
    show ?thesis
    proof (cases ys)
      case Nil
      then show ?thesis
        using links_delete_last [of "mem h" xs' q y] lk F xs dk al by (simp add: m'_def)
    next
      case (Cons z' zs)
      then have [simp]: "z' = z" by (simp add: z_def)
      have b: "heap_listp h \<le> q" "q \<le> mem_brk h" "heap_listp h \<le> z" "z \<le> mem_brk h"
        using memb [OF qm] memb [OF zm] False Cons by auto
      have "sint (ptrdiff z q) = z - q" "sint (ptrdiff q z) = q - z"
        using heap_ptrdiff [OF C] b by simp_all
      then show ?thesis
        using links_delete_mid [of "mem h" xs' q y z zs] lk F xs Cons dk al False
        by (simp add: m'_def)
    qed
  qed
  have other: "links m' (F j) = links (mem h) (F j)" if j: "j < 7" "j \<noteq> k" for j
  proof (rule links_cong)
    have n: "a \<noteq> b \<and> a + 4 \<noteq> b \<and> a \<noteq> b + 4" if "a \<in> set (F j)" "b \<in> set (F k)" for a b
    proof -
      have "a \<noteq> b" using member_unique [OF C L j(1) k that(1)] that(2) j(2) by auto
      moreover from member_facts [OF C L j(1) that(1)] have "a mod 8 = 0" by blast
      ultimately show ?thesis using al4 [of a b] mem8 [OF that(2)] by auto
    qed
    show "\<forall>a\<in>set (F j). m' (a + 4) = mem h (a + 4)"
      using n qm zm by (auto simp add: m'_def)
    show "\<forall>a\<in>set (tl (F j)). m' a = mem h a"
      using n qm zm by (auto simp add: m'_def dest!: in_set_tl)
  qed
  have L': "Lists h' bs (F(k := remove1 y (F k))) (insert y X)"
    unfolding Lists_def lay
  proof (intro conjI allI impI)
    fix j :: nat assume j: "j < 7"
    show "classes h' j = (case (F(k := remove1 y (F k))) j of [] \<Rightarrow> 0 | a # r \<Rightarrow> a)"
    proof (cases "j = k")
      case True
      show ?thesis
      proof (cases xs)
        case Nil
        then show ?thesis using True rm by (cases ys) (simp_all add: c c'_def z_def)
      next
        case (Cons a r)
        then show ?thesis using True rm hdx by (simp add: c c'_def)
      qed
    next
      case False
      then show ?thesis using L j by (simp add: c c'_def Lists_def)
    qed
    show "links (mem h') ((F(k := remove1 y (F k))) j)"
      using Lk other [OF j] rm L j by (cases "j = k") (simp_all add: m Lists_def)
    show "distinct ((F(k := remove1 y (F k))) j)"
      using L j by (simp add: Lists_def)
    show "\<forall>a\<in>set ((F(k := remove1 y (F k))) j).
        a \<notin> insert y X \<and> (\<exists>s. (a, s, False) \<in> set (lay h bs) \<and> bucket_of s = j)"
    proof
      fix a assume a: "a \<in> set ((F(k := remove1 y (F k))) j)"
      then have aj: "a \<in> set (F j)"
        using set_remove1_subset [of y "F k"] by (cases "j = k") auto
      have "a \<noteq> y"
      proof (cases "j = k")
        case True
        then show ?thesis using a rm d by auto
      next
        case False
        then show ?thesis using member_unique [OF C L j k aj] ym by auto
      qed
      then show "a \<notin> insert y X \<and> (\<exists>s. (a, s, False) \<in> set (lay h bs) \<and> bucket_of s = j)"
        using L j aj by (auto simp add: Lists_def)
    qed
  next
    have *: "a \<in> insert y X \<or> a \<in> set ((F(k := remove1 y (F k))) (bucket_of u))"
      if a: "(a, u, False) \<in> set (lay h bs)" for a u
    proof (cases "a = y")
      case True
      then show ?thesis by simp
    next
      case False
      moreover have "a \<in> X \<or> a \<in> set (F (bucket_of u))" using L a by (auto simp add: Lists_def)
      ultimately show ?thesis by (cases "bucket_of u = k") auto
    qed
    show "\<forall>(a, s, al)\<in>set (lay h bs). \<not> al \<longrightarrow>
        a \<in> insert y X \<or> a \<in> set ((F(k := remove1 y (F k))) (bucket_of s))"
    proof (intro ball_tripleI impI)
      fix a u al assume "(a, u, al) \<in> set (lay h bs)" "\<not> al"
      then have "(a, u, False) \<in> set (lay h bs)" by simp
      then show "a \<in> insert y X \<or> a \<in> set ((F(k := remove1 y (F k))) (bucket_of u))" by (rule *)
    qed
  qed
  show ?thesis using run C' L' sf by (auto simp add: PInv_def)
qed

lemma PInv_rewrite:
  assumes P: "PInv h (pre @ mid @ post) F X"
    and sf: "same_frame h h'" and cl: "classes h' = classes h"
    and a: "a = heap_listp h + 8 + totsize pre"
    and frame: "\<And>p. p < a - 4 \<or> a + totsize mid - 4 \<le> p \<Longrightarrow> mem h' p = mem h p"
    and pend: "\<And>x s. (x, s, False) \<in> set (layout a mid) \<Longrightarrow> x \<in> X"
    and mid': "sizes_ok mid'" "totsize mid' = totsize mid" "blocks_ok (mem h') (layout a mid')"
    and X': "\<And>x s. (x, s, False) \<in> set (layout a mid') \<Longrightarrow> x \<in> X'"
      "\<And>x. x < a \<or> a + totsize mid \<le> x \<Longrightarrow> (x \<in> X') = (x \<in> X)"
  shows "PInv h' (pre @ mid' @ post) F X'"
proof -
  let ?a0 = "heap_listp h + 8"
  let ?e = "a + totsize mid"
  have C: "Chain h (pre @ mid @ post)" and L: "Lists h (pre @ mid @ post) F X"
    using P by (simp_all add: PInv_def)
  have eq: "heap_listp h' = heap_listp h" "mem_brk h' = mem_brk h"
    using sf by (simp_all add: same_frame_def)
  have ok: "sizes_ok pre" "sizes_ok mid" "sizes_ok post"
    and e: "?a0 + totsize pre + totsize mid + totsize post = mem_brk h"
    using C by (simp_all add: Chain_def add.assoc)
  have lay: "lay h (pre @ mid @ post) = layout ?a0 pre @ layout a mid @ layout ?e post"
    "lay h (pre @ mid' @ post) = layout ?a0 pre @ layout a mid' @ layout ?e post"
    using a mid'(2) by (simp_all add: add.assoc)
  have inpre: "y + t \<le> a \<and> 16 \<le> t" if "(y, t, bl) \<in> set (layout ?a0 pre)" for y t bl
    using in_layout_bounds [OF ok(1) that] a by simp
  have inpost: "?e \<le> y \<and> 16 \<le> t" if "(y, t, bl) \<in> set (layout ?e post)" for y t bl
    using in_layout_bounds [OF ok(3) that] by simp
  have np: "0 \<le> totsize pre" "0 \<le> totsize mid" "0 \<le> totsize post"
    using ok by (simp_all add: totsize_nonneg)
  have bo: "blocks_ok (mem h) (layout ?a0 pre)" "blocks_ok (mem h) (layout ?e post)"
    using C by (simp_all add: Chain_def a)
  have bpre: "blocks_ok (mem h') (layout ?a0 pre)"
    unfolding blocks_ok_def
  proof (intro ball_tripleI)
    fix y t bl assume y: "(y, t, bl) \<in> set (layout ?a0 pre)"
    have "mem h' (y - 4) = mem h (y - 4)" "mem h' (y + t - 8) = mem h (y + t - 8)"
      using inpre [OF y] by (auto intro!: frame)
    then show "mem h' (y - 4) = tag t bl \<and> mem h' (y + t - 8) = tag t bl"
      using bo(1) y by (auto simp add: blocks_ok_def)
  qed
  have bpost: "blocks_ok (mem h') (layout ?e post)"
    unfolding blocks_ok_def
  proof (intro ball_tripleI)
    fix y t bl assume y: "(y, t, bl) \<in> set (layout ?e post)"
    have "mem h' (y - 4) = mem h (y - 4)" "mem h' (y + t - 8) = mem h (y + t - 8)"
      using inpost [OF y] by (auto intro!: frame)
    then show "mem h' (y - 4) = tag t bl \<and> mem h' (y + t - 8) = tag t bl"
      using bo(2) y by (auto simp add: blocks_ok_def)
  qed
  have pro: "mem h' (heap_listp h - 4) = mem h (heap_listp h - 4)"
    "mem h' (heap_listp h) = mem h (heap_listp h)" "mem h' (mem_brk h - 4) = mem h (mem_brk h - 4)"
    using a np e by (auto intro!: frame)
  have C': "Chain h' (pre @ mid' @ post)"
    using C bpre bpost mid' pro ok same_frame_ok(3) [OF sf] e a
    by (simp add: Chain_def eq lay del: layout_append)
  have memb: "(x < a \<or> ?e \<le> x) \<and> x \<notin> X' \<and> mem h' x = mem h x \<and> mem h' (x + 4) = mem h (x + 4) \<and>
      (\<exists>s. (x, s, False) \<in> set (lay h (pre @ mid' @ post)) \<and> bucket_of s = k)"
    if k: "k < 7" and x: "x \<in> set (F k)" for k x
  proof -
    from L k x obtain s where s: "x \<notin> X" "(x, s, False) \<in> set (lay h (pre @ mid @ post))" "bucket_of s = k"
      by (auto simp add: Lists_def)
    from s(2) pend s(1) have "(x, s, False) \<in> set (layout ?a0 pre) \<or> (x, s, False) \<in> set (layout ?e post)"
      unfolding lay by auto
    then show ?thesis
    proof
      assume i: "(x, s, False) \<in> set (layout ?a0 pre)"
      then have b: "x + s \<le> a" "16 \<le> s" using inpre by auto
      then have "mem h' x = mem h x" "mem h' (x + 4) = mem h (x + 4)" by (auto intro!: frame)
      moreover have "x \<notin> X'" using X'(2) [of x] b s(1) by simp
      ultimately show ?thesis using i s(3) b unfolding lay by auto
    next
      assume i: "(x, s, False) \<in> set (layout ?e post)"
      then have b: "?e \<le> x" using inpost by auto
      then have "mem h' x = mem h x" "mem h' (x + 4) = mem h (x + 4)" by (auto intro!: frame)
      moreover have "x \<notin> X'" using X'(2) [of x] b s(1) by simp
      ultimately show ?thesis using i s(3) b unfolding lay by auto
    qed
  qed
  have comp: "x \<in> X \<or> x \<in> set (F (bucket_of s))"
    if "(x, s, False) \<in> set (lay h (pre @ mid @ post))" for x s
    using L that unfolding Lists_def by fast
  have L': "Lists h' (pre @ mid' @ post) F X'"
    unfolding Lists_def eq
  proof (intro conjI allI impI)
    fix k :: nat assume k: "k < 7"
    show "classes h' k = (case F k of [] \<Rightarrow> 0 | a # r \<Rightarrow> a)"
      using L k by (simp add: cl Lists_def)
    have "links (mem h') (F k) = links (mem h) (F k)"
      using memb [OF k] by (intro links_cong) (auto dest!: in_set_tl)
    then show "links (mem h') (F k)" using L k by (simp add: Lists_def)
    show "distinct (F k)" using L k by (simp add: Lists_def)
    show "\<forall>a\<in>set (F k). a \<notin> X' \<and> (\<exists>s. (a, s, False) \<in> set (lay h (pre @ mid' @ post)) \<and> bucket_of s = k)"
      using memb [OF k] by blast
  next
    show "\<forall>(x, s, al)\<in>set (lay h (pre @ mid' @ post)). \<not> al \<longrightarrow> x \<in> X' \<or> x \<in> set (F (bucket_of s))"
    proof (intro ball_tripleI impI)
      fix x s al assume "(x, s, al) \<in> set (lay h (pre @ mid' @ post))" "\<not> al"
      then consider (1) "(x, s, False) \<in> set (layout ?a0 pre)" | (2) "(x, s, False) \<in> set (layout a mid')"
        | (3) "(x, s, False) \<in> set (layout ?e post)"
        unfolding lay by auto
      then show "x \<in> X' \<or> x \<in> set (F (bucket_of s))"
      proof cases
        case 1
        then have "x \<in> X \<or> x \<in> set (F (bucket_of s))" using comp [of x s] unfolding lay by simp
        moreover have "x < a" using inpre [OF 1] by simp
        ultimately show ?thesis using X'(2) [of x] by auto
      next
        case 2
        then show ?thesis using X'(1) by blast
      next
        case 3
        then have "x \<in> X \<or> x \<in> set (F (bucket_of s))" using comp [of x s] unfolding lay by simp
        moreover have "?e \<le> x" using inpost [OF 3] by simp
        ultimately show ?thesis using X'(2) [of x] by auto
      qed
    qed
  qed
  show ?thesis using C' L' by (simp add: PInv_def)
qed

text \<open>Reads decided by the content of one word.\<close>

lemma raw_reads:
  assumes "word_ok h p" "mem h p = tag s al" "s mod 8 = 0" "0 \<le> s" "s < 2 ^ 31"
  shows "GET h p = Some (tag s al)" "GET_SIZE h p = Some (word_of_int s)"
    "GET_ALLOC h p = Some (if al then 1 else 0)"
    "NEXT_BLKP h (p + 4) = Some (p + 4 + s)" "PREV_BLKP h (p + 8) = Some (p + 8 - s)"
    "8 \<le> s \<Longrightarrow> FTRP h (p + 4) = Some (p + 4 + s - 8)"
proof -
  have u: "uint (word_of_int s :: u32) = s" using assms(4,5) by (simp add: uint_of_int32)
  show g: "GET h p = Some (tag s al)" using assms(1,2) by (simp add: GET_def)
  then show z: "GET_SIZE h p = Some (word_of_int s)" "GET_ALLOC h p = Some (if al then 1 else 0)"
    using assms(3) by (simp_all add: GET_SIZE_def GET_ALLOC_def tag_size' tag_alloc)
  then show "NEXT_BLKP h (p + 4) = Some (p + 4 + s)" "PREV_BLKP h (p + 8) = Some (p + 8 - s)"
    using u by (simp_all add: NEXT_BLKP_def PREV_BLKP_def)
  show "FTRP h (p + 4) = Some (p + 4 + s - 8)" if "8 \<le> s"
    using z that assms(5) by (simp add: FTRP_def HDRP_def uint_size_minus8)
qed

lemma append_to_class_PInv:
  assumes "PInv h bs F X" "(x, s, False) \<in> set (lay h bs)" "x \<in> X"
  shows "\<exists>h'. append_to_class h x (sint (word_of_int s :: u32)) = Some h' \<and>
     PInv h' bs (F(bucket_of s := x # F (bucket_of s))) (X - {x}) \<and> same_frame h h'"
proof -
  have C: "Chain h bs" using assms(1) by (simp add: PInv_def)
  note f = block_facts [OF C assms(2)]
  have "sint (word_of_int s :: u32) = s" using f(4,6) by (simp add: sint_of_int32)
  then show ?thesis
    using append_in_PInv [OF assms refl] by (simp add: append_to_class_in)
qed

lemma delete_from_class_in:
  "delete_from_class h bp prev = do {
     (ptr, ptr_size) \<leftarrow>
       (if prev = 0 then do {
          n \<leftarrow> NEXT_BLKP h bp; sz \<leftarrow> GET_SIZE h (HDRP n); Some (n, sint sz) }
        else if prev = 1 then do {
          p \<leftarrow> PREV_BLKP h bp; sz \<leftarrow> GET_SIZE h (HDRP p); Some (p, sint sz) }
        else if prev = 2 then do {
          sz \<leftarrow> GET_SIZE h (HDRP bp); Some (bp, sint sz) }
        else Some (0, 0));
     delete_in h (bucket_of ptr_size) ptr }"
  unfolding delete_from_class_def bucket_of_def
  by (intro arg_cong2 [where f = Option.bind] refl ext) (simp split: prod.splits)

lemma delete_from_class_PInv:
  assumes "PInv h bs F X" "(y, t, False) \<in> set (lay h bs)" "y \<notin> X"
  shows "\<exists>h'. delete_from_class h y 2 = Some h' \<and>
           PInv h' bs (F(bucket_of t := remove1 y (F (bucket_of t)))) (insert y X) \<and> same_frame h h'"
    "(x, s, al) \<in> set (lay h bs) \<Longrightarrow> y = x + s \<Longrightarrow>
       \<exists>h'. delete_from_class h x 0 = Some h' \<and>
           PInv h' bs (F(bucket_of t := remove1 y (F (bucket_of t)))) (insert y X) \<and> same_frame h h'"
    "\<exists>h'. delete_from_class h (y + t) 1 = Some h' \<and>
           PInv h' bs (F(bucket_of t := remove1 y (F (bucket_of t)))) (insert y X) \<and> same_frame h h'"
proof -
  have C: "Chain h bs" using assms(1) by (simp add: PInv_def)
  note f = block_facts [OF C assms(2)] and r = block_reads [OF C assms(2)]
  have si: "sint (word_of_int t :: u32) = t" using f(4,6) by (simp add: sint_of_int32)
  note d = delete_in_PInv [OF assms refl]
  show "\<exists>h'. delete_from_class h y 2 = Some h' \<and>
           PInv h' bs (F(bucket_of t := remove1 y (F (bucket_of t)))) (insert y X) \<and> same_frame h h'"
    using d r(3) si by (simp add: delete_from_class_in HDRP_def)
  show "\<exists>h'. delete_from_class h (y + t) 1 = Some h' \<and>
           PInv h' bs (F(bucket_of t := remove1 y (F (bucket_of t)))) (insert y X) \<and> same_frame h h'"
    using d r(3,9) si by (simp add: delete_from_class_in HDRP_def)
  assume x: "(x, s, al) \<in> set (lay h bs)" "y = x + s"
  show "\<exists>h'. delete_from_class h x 0 = Some h' \<and>
           PInv h' bs (F(bucket_of t := remove1 y (F (bucket_of t)))) (insert y X) \<and> same_frame h h'"
    using d r(3) si block_reads(7) [OF C x(1)] x(2) by (simp add: delete_from_class_in HDRP_def)
qed

lemma allocs_mid:
  "allocs h (pre @ mid @ post) =
     {a. \<exists>s. (a, s, True) \<in> set (lay h pre)} \<union>
     {a. \<exists>s. (a, s, True) \<in> set (layout (heap_listp h + 8 + totsize pre) mid)} \<union>
     {a. \<exists>s. (a, s, True) \<in> set (layout (heap_listp h + 8 + totsize pre + totsize mid) post)}"
  by (auto simp add: allocs_def)

lemma allocs_frame: "same_frame h h' \<Longrightarrow> allocs h' bs = allocs h bs"
  by (simp add: allocs_def same_frame_def)

lemma pre_keep_simps:
  "pre = [] \<or> snd (last pre) \<Longrightarrow> pre_keep pre = pre"
  "pre = [] \<or> snd (last pre) \<Longrightarrow> pre_size pre = 0"
  "pre_keep (pre' @ [(t, False)]) = pre'" "pre_size (pre' @ [(t, False)]) = t"
  by (auto simp add: pre_keep_def pre_size_def)

lemma post_keep_simps:
  "post = [] \<or> snd (hd post) \<Longrightarrow> post_keep post = post"
  "post = [] \<or> snd (hd post) \<Longrightarrow> post_size post = 0"
  "post_keep ((u, False) # post') = post'" "post_size ((u, False) # post') = u"
  by (auto simp add: post_keep_def post_size_def)

lemma pre_post_size_nonneg:
  "sizes_ok pre \<Longrightarrow> 0 \<le> pre_size pre" "sizes_ok post \<Longrightarrow> 0 \<le> post_size post"
proof -
  show "0 \<le> pre_size pre" if "sizes_ok pre"
  proof (cases "pre \<noteq> [] \<and> \<not> snd (last pre)")
    case True
    then have "last pre \<in> set pre" by simp
    then have "16 \<le> fst (last pre)" using that by (auto simp add: sizes_ok_def case_prod_unfold)
    then show ?thesis using True by (simp add: pre_size_def)
  qed (auto simp add: pre_size_def)
  show "0 \<le> post_size post" if "sizes_ok post"
  proof (cases "post \<noteq> [] \<and> \<not> snd (hd post)")
    case True
    then have "hd post \<in> set post" by simp
    then have "16 \<le> fst (hd post)" using that by (auto simp add: sizes_ok_def case_prod_unfold)
    then show ?thesis using True by (simp add: post_size_def)
  qed (auto simp add: post_size_def)
qed

lemma coalesced_split:
  assumes "coalesced h pre s post x' h' bs' F'" "sizes_ok pre" "sizes_ok post"
  shows "\<exists>pre2 s2 post2. bs' = pre2 @ (s2, False) # post2 \<and> x' = heap_listp h + 8 + totsize pre2 \<and>
        s \<le> s2 \<and> (post = [] \<longrightarrow> post2 = [])"
  using assms pre_post_size_nonneg(1) [of pre] pre_post_size_nonneg(2) [of post]
  by (intro exI [of _ "pre_keep pre"] exI [of _ "pre_size pre + s + post_size post"]
      exI [of _ "post_keep post"]) (auto simp add: coalesced_def merged_def post_keep_def)

lemma coalesce_case1:
  assumes P: "PInv h (pre @ (s, False) # post) F {x}" and x: "x = heap_listp h + 8 + totsize pre"
    and n: "noadj pre" "noadj post"
    and pa: "pre = [] \<or> snd (last pre)" and na: "post = [] \<or> snd (hd post)"
  shows "\<exists>x' h' bs' F'. coalesce h x = Some (x', h') \<and> coalesced h pre s post x' h' bs' F'"
proof -
  let ?bs = "pre @ (s, False) # post"
  have C: "Chain h ?bs" using P by (simp add: PInv_def)
  have xin: "(x, s, False) \<in> set (lay h ?bs)" using x by simp
  note xr = block_reads [OF C xin]
  have prev: "\<exists>p pf. PREV_BLKP h x = Some p \<and> FTRP h p = Some pf \<and> GET_ALLOC h pf = Some 1"
  proof (cases pre rule: rev_cases)
    case Nil
    then show ?thesis using prologue_reads [OF C] x by simp
  next
    case (snoc pre' b)
    then obtain t where b: "b = (t, True)" using pa by (cases b) auto
    have "(x - t, t, True) \<in> set (lay h ?bs)" using snoc b x by simp
    from block_reads [OF C this] show ?thesis by simp
  qed
  have "GET_ALLOC h (HDRP (x + s)) = Some 1"
  proof (cases post)
    case Nil
    then have "x + s = mem_brk h" using C x by (simp add: Chain_def)
    then show ?thesis using epilogue_reads [OF C] by (simp add: HDRP_def)
  next
    case (Cons b post')
    then obtain u where b: "b = (u, True)" using na by (cases b) auto
    have "(x + s, u, True) \<in> set (lay h ?bs)" using Cons b x by simp
    from block_reads(5) [OF C this] show ?thesis by (simp add: HDRP_def)
  qed
  moreover from append_to_class_PInv [OF P xin] obtain h' where
    a: "append_to_class h x (sint (word_of_int s :: u32)) = Some h'"
    and P': "PInv h' ?bs (F(bucket_of s := x # F (bucket_of s))) {}" and sf: "same_frame h h'"
    by auto
  ultimately have run: "coalesce h x = Some (x, h')"
    using prev xr(3,7) by (auto simp add: coalesce_def HDRP_def)
  have "noadj ?bs"
    using n pa na noadj_append [of pre "(s, False) # post"] noadj_append [of "[(s, False)]" post]
    by auto
  then have "coalesced h pre s post x h' ?bs (F(bucket_of s := x # F (bucket_of s)))"
    using P' sf x allocs_frame [OF sf] pre_keep_simps(1,2) [OF pa] post_keep_simps(1,2) [OF na]
    unfolding coalesced_def merged_def by simp
  then show ?thesis using run by blast
qed

lemma PACK_sum:
  "PACK (word_of_int s + word_of_int u) 0 = tag (s + u) False"
  "PACK (word_of_int s + (word_of_int t + word_of_int u)) 0 = tag (s + (t + u)) False"
  by (simp_all add: PACK_def tag_def)

lemma sint_sum:
  "0 \<le> s + u \<Longrightarrow> s + u < 2 ^ 31 \<Longrightarrow> sint (word_of_int s + word_of_int u :: u32) = s + u"
  using sint_of_int32 [of "s + u"] by simp

lemma block_size_bound:
  assumes "Chain h bs" "heap_listp h \<le> a" "b \<le> mem_brk h"
  shows "b - a < 2 ^ 31"
proof -
  have "static h" using assms(1) by (simp add: Chain_def)
  then have "mem_brk h - heap_listp h < 2 ^ 31"
    by (simp add: static_def class_ok_def)
  then show ?thesis using assms(2,3) by simp
qed

lemma coalesce_case2:
  assumes P: "PInv h (pre @ (s, False) # (u, False) # post') F {x}"
    and x: "x = heap_listp h + 8 + totsize pre"
    and n: "noadj pre" "noadj ((u, False) # post')"
    and pa: "pre = [] \<or> snd (last pre)"
  shows "\<exists>x' h' bs' F'. coalesce h x = Some (x', h') \<and>
           coalesced h pre s ((u, False) # post') x' h' bs' F'"
proof -
  let ?bs = "pre @ (s, False) # (u, False) # post'"
  let ?T = "s + u"
  have C: "Chain h ?bs" using P by (simp add: PInv_def)
  have xin: "(x, s, False) \<in> set (lay h ?bs)" using x by simp
  have nin: "(x + s, u, False) \<in> set (lay h ?bs)" using x by simp
  note xr = block_reads [OF C xin] and nr = block_reads [OF C nin]
  note xf = block_facts [OF C xin] and nf = block_facts [OF C nin]
  have T: "16 \<le> ?T" "?T mod 8 = 0" "?T < 2 ^ 31" "0 \<le> ?T"
    using xf(4,5) nf(4,5) block_size_bound [OF C, of x "x + s + u"] xf(2) nf(3)
    by (simp_all) presburger
  have prev: "\<exists>p pf. PREV_BLKP h x = Some p \<and> FTRP h p = Some pf \<and> GET_ALLOC h pf = Some 1"
  proof (cases pre rule: rev_cases)
    case Nil
    then show ?thesis using prologue_reads [OF C] x by simp
  next
    case (snoc pre' b)
    then obtain t where b: "b = (t, True)" using pa by (cases b) auto
    have "(x - t, t, True) \<in> set (lay h ?bs)" using snoc b x by simp
    from block_reads [OF C this] show ?thesis by simp
  qed
  have "x + s \<notin> {x}" using xf(4) by simp
  from delete_from_class_PInv(2) [OF P nin this xin refl] obtain h1 where
    d: "delete_from_class h x 0 = Some h1"
    and P1: "PInv h1 ?bs (F(bucket_of u := remove1 (x + s) (F (bucket_of u)))) {x + s, x}"
    and sf1: "same_frame h h1"
    by auto
  let ?F1 = "F(bucket_of u := remove1 (x + s) (F (bucket_of u)))"
  have C1: "Chain h1 ?bs" using P1 by (simp add: PInv_def)
  have lay1: "lay h1 = lay h" using sf1 by (simp add: same_frame_def)
  note xw = block_word_ok [OF C1 xin [folded lay1]] and nw = block_word_ok [OF C1 nin [folded lay1]]
  define h2 where "h2 = h1\<lparr>mem := (mem h1)(x - 4 := tag ?T False)\<rparr>"
  define h3 where "h3 = h2\<lparr>mem := (mem h2)(x + ?T - 8 := tag ?T False)\<rparr>"
  have e1: "PUT h1 (HDRP x) (PACK (word_of_int s + word_of_int u) 0) = Some h2"
    using xw(1) by (simp add: PUT_def HDRP_def h2_def PACK_sum)
  have e2: "FTRP h2 x = Some (x + ?T - 8)"
    using raw_reads(6) [of h2 "x - 4" ?T False] xw(1) T by (simp add: h2_def)
  have e3: "PUT h2 (x + ?T - 8) (PACK (word_of_int s + word_of_int u) 0) = Some h3"
    using nw(4) by (simp add: PUT_def h2_def h3_def PACK_sum add.assoc)
  have sf3: "same_frame h1 h3" by (simp add: h2_def h3_def)
  have P3: "PInv h3 (pre @ [(?T, False)] @ post') ?F1 {x}"
  proof (rule PInv_rewrite [where mid = "[(s, False), (u, False)]" and a = x and h = h1])
    show "PInv h1 (pre @ [(s, False), (u, False)] @ post') ?F1 {x + s, x}" using P1 by simp
    show "same_frame h1 h3" by (rule sf3)
    show "classes h3 = classes h1" by (simp add: h2_def h3_def)
    show "x = heap_listp h1 + 8 + totsize pre" using x sf1 by (simp add: same_frame_def)
    show "mem h3 p = mem h1 p" if "p < x - 4 \<or> x + totsize [(s, False), (u, False)] - 4 \<le> p" for p
      using that T(1) by (auto simp add: h2_def h3_def)
    show "blocks_ok (mem h3) (layout x [(?T, False)])"
      using T(1) by (simp add: h2_def h3_def)
  qed (use T xf(4) nf(4) in auto)
  have xin3: "(x, ?T, False) \<in> set (lay h3 (pre @ [(?T, False)] @ post'))"
    using x sf1 sf3 by (simp add: same_frame_def)
  from append_to_class_PInv [OF P3 xin3] obtain h4 where
    a: "append_to_class h3 x (sint (word_of_int ?T :: u32)) = Some h4"
    and P4: "PInv h4 (pre @ [(?T, False)] @ post') (?F1(bucket_of ?T := x # ?F1 (bucket_of ?T))) {}"
    and sf4: "same_frame h3 h4"
    by auto
  have e4: "append_to_class h3 x (sint (word_of_int s + word_of_int u :: u32)) = Some h4"
    using a by simp
  have run: "coalesce h x = Some (x, h4)"
    using prev xr(3,7) nr(3,5) d e1 e2 e3 e4 by (auto simp add: coalesce_def HDRP_def Let_def)
  have sf: "same_frame h h4" using sf1 sf3 sf4 by (simp add: same_frame_def)
  have na: "noadj (pre @ [(?T, False)] @ post')"
    using n pa noadj_append [of pre "(?T, False) # post'"] by (cases post') auto
  have al: "allocs h4 (pre @ [(?T, False)] @ post') = allocs h ?bs"
    using allocs_frame [OF sf] allocs_mid [of h pre "[(?T, False)]" post']
      allocs_mid [of h pre "[(s, False), (u, False)]" post']
    by (simp add: add.assoc)
  have "coalesced h pre s ((u, False) # post') x h4 (pre @ [(?T, False)] @ post')
      (?F1(bucket_of ?T := x # ?F1 (bucket_of ?T)))"
    unfolding coalesced_def
  proof (intro conjI)
    show "pre @ [(?T, False)] @ post' = merged pre s ((u, False) # post')"
      using pre_keep_simps(1,2) [OF pa] by (simp add: merged_def post_keep_simps)
    show "x = heap_listp h + 8 + totsize (pre_keep pre)"
      using x pre_keep_simps(1) [OF pa] by simp
  qed (use P4 na sf al in simp_all)
  then show ?thesis using run by blast
qed

lemma next_alloc_reads:
  assumes C: "Chain h (pre @ (s, al) # post)" and x: "x = heap_listp h + 8 + totsize pre"
    and na: "post = [] \<or> snd (hd post)"
  shows "GET_ALLOC h (HDRP (x + s)) = Some 1"
proof (cases post)
  case Nil
  then have "x + s = mem_brk h" using C x by (simp add: Chain_def)
  then show ?thesis using epilogue_reads [OF C] by (simp add: HDRP_def)
next
  case (Cons b post')
  then obtain u where b: "b = (u, True)" using na by (cases b) auto
  have "(x + s, u, True) \<in> set (lay h (pre @ (s, al) # post))" using Cons b x by simp
  from block_reads(5) [OF C this] show ?thesis by (simp add: HDRP_def)
qed

lemma coalesce_case3:
  assumes P: "PInv h (pre' @ (t, False) # (s, False) # post) F {x}"
    and x: "x = heap_listp h + 8 + totsize pre' + t"
    and n: "noadj (pre' @ [(t, False)])" "noadj post"
    and na: "post = [] \<or> snd (hd post)"
  shows "\<exists>x' h' bs' F'. coalesce h x = Some (x', h') \<and>
           coalesced h (pre' @ [(t, False)]) s post x' h' bs' F'"
proof -
  let ?bs = "pre' @ (t, False) # (s, False) # post"
  let ?T = "s + t"
  define y where "y = x - t"
  have y: "y = heap_listp h + 8 + totsize pre'" "x = y + t" using x by (simp_all add: y_def)
  have C: "Chain h ?bs" using P by (simp add: PInv_def)
  have yin: "(y, t, False) \<in> set (lay h ?bs)" using y by simp
  have xin: "(x, s, False) \<in> set (lay h ?bs)" using y by (simp add: add.assoc)
  note xr = block_reads [OF C xin] and yr = block_reads [OF C yin]
  note xf = block_facts [OF C xin] and yf = block_facts [OF C yin]
  have T: "16 \<le> ?T" "?T mod 8 = 0" "?T < 2 ^ 31" "0 \<le> ?T"
    using xf(4,5) yf(4,5) block_size_bound [OF C, of y "y + t + s"] yf(2) xf(3) y(2)
    by (simp_all add: add.commute) presburger
  have nx: "GET_ALLOC h (HDRP (x + s)) = Some 1"
    using next_alloc_reads [of h "pre' @ [(t, False)]" s False post x] C y na by simp
  have "y \<notin> {x}" using yf(4) y(2) by simp
  from delete_from_class_PInv(3) [OF P yin this] obtain h1 where
    d: "delete_from_class h x 1 = Some h1"
    and P1: "PInv h1 ?bs (F(bucket_of t := remove1 y (F (bucket_of t)))) {y, x}"
    and sf1: "same_frame h h1"
    using y(2) by auto
  let ?F1 = "F(bucket_of t := remove1 y (F (bucket_of t)))"
  have C1: "Chain h1 ?bs" using P1 by (simp add: PInv_def)
  have lay1: "lay h1 = lay h" using sf1 by (simp add: same_frame_def)
  note xw = block_word_ok [OF C1 xin [folded lay1]] and yw = block_word_ok [OF C1 yin [folded lay1]]
  note xr1 = block_reads [OF C1 xin [folded lay1]]
  note yf1 = block_facts [OF C1 yin [folded lay1]]
  define h2 where "h2 = h1\<lparr>mem := (mem h1)(x + s - 8 := tag ?T False)\<rparr>"
  define h3 where "h3 = h2\<lparr>mem := (mem h2)(y - 4 := tag ?T False)\<rparr>"
  have e1: "PUT h1 (x + s - 8) (PACK (word_of_int s + word_of_int t) 0) = Some h2"
    using xw(4) by (simp add: PUT_def h2_def PACK_sum)
  have m2: "mem h2 (x - 8) = tag t False"
    using yf1(9) [OF refl] y(2) xf(4) by (simp add: h2_def)
  have e2: "PREV_BLKP h2 x = Some y"
    using raw_reads(5) [of h2 "x - 8" t False] m2 xw(6) yf(4,5,6) by (simp add: h2_def y_def)
  have e3: "PUT h2 (HDRP y) (PACK (word_of_int s + word_of_int t) 0) = Some h3"
    using yw(1) by (simp add: PUT_def HDRP_def h2_def h3_def PACK_sum)
  have m3: "mem h3 (x - 8) = tag t False"
    using m2 yf(4) by (simp add: h3_def y_def)
  have e4: "PREV_BLKP h3 x = Some y"
    using raw_reads(5) [of h3 "x - 8" t False] m3 xw(6) yf(4,5,6) by (simp add: h2_def h3_def y_def)
  have sf3: "same_frame h1 h3" by (simp add: h2_def h3_def)
  have P3: "PInv h3 (pre' @ [(?T, False)] @ post) ?F1 {y}"
  proof (rule PInv_rewrite [where mid = "[(t, False), (s, False)]" and a = y and h = h1])
    show "PInv h1 (pre' @ [(t, False), (s, False)] @ post) ?F1 {y, x}" using P1 by simp
    show "same_frame h1 h3" by (rule sf3)
    show "classes h3 = classes h1" by (simp add: h2_def h3_def)
    show "y = heap_listp h1 + 8 + totsize pre'" using y sf1 by (simp add: same_frame_def)
    show "mem h3 p = mem h1 p" if "p < y - 4 \<or> y + totsize [(t, False), (s, False)] - 4 \<le> p" for p
      using that T(1) y(2) by (auto simp add: h2_def h3_def)
    show "blocks_ok (mem h3) (layout y [(?T, False)])"
      using T(1) y(2) by (simp add: h2_def h3_def)
  qed (use T xf(4) yf(4) y(2) in auto)
  have yin3: "(y, ?T, False) \<in> set (lay h3 (pre' @ [(?T, False)] @ post))"
    using y sf1 sf3 by (simp add: same_frame_def)
  from append_to_class_PInv [OF P3 yin3] obtain h4 where
    a: "append_to_class h3 y (sint (word_of_int ?T :: u32)) = Some h4"
    and P4: "PInv h4 (pre' @ [(?T, False)] @ post) (?F1(bucket_of ?T := y # ?F1 (bucket_of ?T))) {}"
    and sf4: "same_frame h3 h4"
    by auto
  have e5: "append_to_class h3 y (sint (word_of_int s + word_of_int t :: u32)) = Some h4"
    using a by simp
  have run: "coalesce h x = Some (y, h4)"
    using yr(3,6,8,9) xr(3,7) nx d xr1(8) e1 e2 e3 e4 e5 y(2)
    by (auto simp add: coalesce_def HDRP_def Let_def)
  have sf: "same_frame h h4" using sf1 sf3 sf4 by (simp add: same_frame_def)
  have nn: "noadj (pre' @ [(?T, False)] @ post)"
    using n na noadj_append [of pre' "[(t, False)]"] noadj_append [of pre' "(?T, False) # post"]
      noadj_append [of "[(?T, False)]" post]
    by auto
  have al: "allocs h4 (pre' @ [(?T, False)] @ post) = allocs h ((pre' @ [(t, False)]) @ (s, False) # post)"
    using allocs_frame [OF sf] allocs_mid [of h pre' "[(?T, False)]" post]
      allocs_mid [of h pre' "[(t, False), (s, False)]" post]
    by (simp add: add.assoc add.commute)
  have "coalesced h (pre' @ [(t, False)]) s post y h4 (pre' @ [(?T, False)] @ post)
      (?F1(bucket_of ?T := y # ?F1 (bucket_of ?T)))"
    unfolding coalesced_def
  proof (intro conjI)
    show "pre' @ [(?T, False)] @ post = merged (pre' @ [(t, False)]) s post"
      using post_keep_simps(1,2) [OF na] by (simp add: merged_def pre_keep_simps)
    show "y = heap_listp h + 8 + totsize (pre_keep (pre' @ [(t, False)]))"
      using y by (simp add: pre_keep_simps)
  qed (use P4 nn sf al in simp_all)
  then show ?thesis using run by blast
qed

lemma coalesce_case4:
  assumes P: "PInv h (pre' @ (t, False) # (s, False) # (u, False) # post') F {x}"
    and x: "x = heap_listp h + 8 + totsize pre' + t"
    and n: "noadj (pre' @ [(t, False)])" "noadj ((u, False) # post')"
  shows "\<exists>x' h' bs' F'. coalesce h x = Some (x', h') \<and>
           coalesced h (pre' @ [(t, False)]) s ((u, False) # post') x' h' bs' F'"
proof -
  let ?bs = "pre' @ (t, False) # (s, False) # (u, False) # post'"
  let ?T = "s + (t + u)"
  define y where "y = x - t"
  define z where "z = x + s"
  have y: "y = heap_listp h + 8 + totsize pre'" "x = y + t" "z = y + t + s"
    using x by (simp_all add: y_def z_def)
  have C: "Chain h ?bs" using P by (simp add: PInv_def)
  have yin: "(y, t, False) \<in> set (lay h ?bs)" using y by simp
  have xin: "(x, s, False) \<in> set (lay h ?bs)" using y by (simp add: add.assoc)
  have zin: "(z, u, False) \<in> set (lay h ?bs)" using y by (simp add: add.assoc)
  note xr = block_reads [OF C xin] and yr = block_reads [OF C yin] and zr = block_reads [OF C zin]
  note xf = block_facts [OF C xin] and yf = block_facts [OF C yin] and zf = block_facts [OF C zin]
  have T: "16 \<le> ?T" "?T mod 8 = 0" "?T < 2 ^ 31" "0 \<le> ?T"
    using xf(4,5) yf(4,5) zf(4,5) block_size_bound [OF C, of y "z + u"] yf(2) zf(3) y(2,3)
    by (simp_all add: add.commute add.left_commute) presburger
  have "y \<notin> {x}" using yf(4) y(2) by simp
  from delete_from_class_PInv(3) [OF P yin this] obtain h1 where
    d1: "delete_from_class h x 1 = Some h1"
    and P1: "PInv h1 ?bs (F(bucket_of t := remove1 y (F (bucket_of t)))) {y, x}"
    and sf1: "same_frame h h1"
    using y(2) by auto
  let ?F1 = "F(bucket_of t := remove1 y (F (bucket_of t)))"
  have lay1: "lay h1 = lay h" using sf1 by (simp add: same_frame_def)
  have "z \<notin> {y, x}" using xf(4) yf(4) y(2,3) by simp
  from delete_from_class_PInv(2) [OF P1 zin [folded lay1] this xin [folded lay1]] obtain h2 where
    d2: "delete_from_class h1 x 0 = Some h2"
    and P2: "PInv h2 ?bs (?F1(bucket_of u := remove1 z (?F1 (bucket_of u)))) {z, y, x}"
    and sf2: "same_frame h1 h2"
    by (auto simp add: z_def)
  let ?F2 = "?F1(bucket_of u := remove1 z (?F1 (bucket_of u)))"
  have C2: "Chain h2 ?bs" using P2 by (simp add: PInv_def)
  have lay2: "lay h2 = lay h" using sf1 sf2 by (simp add: same_frame_def)
  note xw = block_word_ok [OF C2 xin [folded lay2]] and yw = block_word_ok [OF C2 yin [folded lay2]]
    and zw = block_word_ok [OF C2 zin [folded lay2]]
  note yr2 = block_reads [OF C2 yin [folded lay2]]
  note xf2 = block_facts [OF C2 xin [folded lay2]] and yf2 = block_facts [OF C2 yin [folded lay2]]
    and zf2 = block_facts [OF C2 zin [folded lay2]]
  define h3 where "h3 = h2\<lparr>mem := (mem h2)(y - 4 := tag ?T False)\<rparr>"
  define h4 where "h4 = h3\<lparr>mem := (mem h3)(z + u - 8 := tag ?T False)\<rparr>"
  have e1: "PREV_BLKP h2 x = Some y" using yr2(9) y(2) by simp
  have e2: "PUT h2 (HDRP y) (PACK (word_of_int s + (word_of_int t + word_of_int u)) 0) = Some h3"
    using yw(1) by (simp add: PUT_def HDRP_def h3_def PACK_sum)
  have m3: "mem h3 (x - 4) = tag s False" "mem h3 (z - 4) = tag u False" "mem h3 (x - 8) = tag t False"
    using xf2(8) [OF refl] zf2(8) [OF refl] yf2(9) [OF refl] y(2,3) yf(4) xf(4)
    by (simp_all add: h3_def)
  have e3: "NEXT_BLKP h3 x = Some z"
    using raw_reads(4) [of h3 "x - 4" s False] m3(1) xw(1) xf(4,5,6) by (simp add: h3_def z_def)
  have e4: "FTRP h3 z = Some (z + u - 8)"
    using raw_reads(6) [of h3 "z - 4" u False] m3(2) zw(1) zf(4,5,6) by (simp add: h3_def)
  have e5: "PUT h3 (z + u - 8) (PACK (word_of_int s + (word_of_int t + word_of_int u)) 0) = Some h4"
    using zw(4) by (simp add: PUT_def h3_def h4_def PACK_sum)
  have m4: "mem h4 (x - 8) = tag t False"
    using m3(3) zf(4) xf(4) by (simp add: h4_def z_def)
  have e6: "PREV_BLKP h4 x = Some y"
    using raw_reads(5) [of h4 "x - 8" t False] m4 xw(6) yf(4,5,6) by (simp add: h3_def h4_def y_def)
  have sf4: "same_frame h2 h4" by (simp add: h3_def h4_def)
  have P4: "PInv h4 (pre' @ [(?T, False)] @ post') ?F2 {y}"
  proof (rule PInv_rewrite [where mid = "[(t, False), (s, False), (u, False)]" and a = y and h = h2])
    show "PInv h2 (pre' @ [(t, False), (s, False), (u, False)] @ post') ?F2 {z, y, x}" using P2 by simp
    show "same_frame h2 h4" by (rule sf4)
    show "classes h4 = classes h2" by (simp add: h3_def h4_def)
    show "y = heap_listp h2 + 8 + totsize pre'" using y sf1 sf2 by (simp add: same_frame_def)
    show "mem h4 p = mem h2 p"
      if "p < y - 4 \<or> y + totsize [(t, False), (s, False), (u, False)] - 4 \<le> p" for p
      using that T(1) y(2,3) by (auto simp add: h3_def h4_def)
    show "blocks_ok (mem h4) (layout y [(?T, False)])"
      using T(1) y(2,3) by (simp add: h3_def h4_def)
  qed (use T xf(4) yf(4) zf(4) y(2,3) in auto)
  have yin4: "(y, ?T, False) \<in> set (lay h4 (pre' @ [(?T, False)] @ post'))"
    using y sf1 sf2 sf4 by (simp add: same_frame_def)
  from append_to_class_PInv [OF P4 yin4] obtain h5 where
    a: "append_to_class h4 y (sint (word_of_int ?T :: u32)) = Some h5"
    and P5: "PInv h5 (pre' @ [(?T, False)] @ post') (?F2(bucket_of ?T := y # ?F2 (bucket_of ?T))) {}"
    and sf5: "same_frame h4 h5"
    by auto
  have e7: "append_to_class h4 y (sint (word_of_int s + (word_of_int t + word_of_int u) :: u32)) = Some h5"
    using a by simp
  have run: "coalesce h x = Some (y, h5)"
    using yr(3,6,8,9) xr(3,7) zr(4,5,8) d1 d2 e1 e2 e3 e4 e5 e6 e7 y(2) z_def
    by (auto simp add: coalesce_def HDRP_def Let_def)
  have sf: "same_frame h h5" using sf1 sf2 sf4 sf5 by (simp add: same_frame_def)
  have nn: "noadj (pre' @ [(?T, False)] @ post')"
    using n noadj_append [of pre' "[(t, False)]"] noadj_append [of pre' "(?T, False) # post'"]
    by (cases post') auto
  have al: "allocs h5 (pre' @ [(?T, False)] @ post')
      = allocs h ((pre' @ [(t, False)]) @ (s, False) # (u, False) # post')"
    using allocs_frame [OF sf] allocs_mid [of h pre' "[(?T, False)]" post']
      allocs_mid [of h pre' "[(t, False), (s, False), (u, False)]" post']
    by (simp add: add.assoc add.commute add.left_commute)
  have "coalesced h (pre' @ [(t, False)]) s ((u, False) # post') y h5 (pre' @ [(?T, False)] @ post')
      (?F2(bucket_of ?T := y # ?F2 (bucket_of ?T)))"
    unfolding coalesced_def
  proof (intro conjI)
    show "pre' @ [(?T, False)] @ post' = merged (pre' @ [(t, False)]) s ((u, False) # post')"
      by (simp add: merged_def pre_keep_simps post_keep_simps)
    show "y = heap_listp h + 8 + totsize (pre_keep (pre' @ [(t, False)]))"
      using y by (simp add: pre_keep_simps)
  qed (use P5 nn sf al in simp_all)
  then show ?thesis using run by blast
qed

text \<open>The four cases together.\<close>

lemma coalesce_PInv:
  assumes P: "PInv h (pre @ (s, False) # post) F {x}" and x: "x = heap_listp h + 8 + totsize pre"
    and n: "noadj pre" "noadj post"
  shows "\<exists>x' h' bs' F'. coalesce h x = Some (x', h') \<and> coalesced h pre s post x' h' bs' F'"
proof -
  consider (1) "pre = [] \<or> snd (last pre)" "post = [] \<or> snd (hd post)"
    | (2) "pre = [] \<or> snd (last pre)" "post \<noteq> []" "\<not> snd (hd post)"
    | (3) "pre \<noteq> []" "\<not> snd (last pre)" "post = [] \<or> snd (hd post)"
    | (4) "pre \<noteq> []" "\<not> snd (last pre)" "post \<noteq> []" "\<not> snd (hd post)"
    by blast
  then show ?thesis
  proof cases
    case 1
    then show ?thesis using coalesce_case1 [OF P x n] by simp
  next
    case 2
    then obtain u post' where post: "post = (u, False) # post'" by (cases post) auto
    show ?thesis using coalesce_case2 [OF P [unfolded post] x n(1) n(2) [unfolded post] 2(1)] post by simp
  next
    case 3
    then obtain pre' t where pre: "pre = pre' @ [(t, False)]" by (cases pre rule: rev_cases) auto
    have x': "x = heap_listp h + 8 + totsize pre' + t" using x pre by simp
    show ?thesis
      using coalesce_case3 [OF _ x' n(1) [unfolded pre] n(2) 3(3), where F = F] P pre by simp
  next
    case 4
    then obtain pre' t where pre: "pre = pre' @ [(t, False)]" by (cases pre rule: rev_cases) auto
    from 4 obtain u post' where post: "post = (u, False) # post'" by (cases post) auto
    have x': "x = heap_listp h + 8 + totsize pre' + t" using x pre by simp
    show ?thesis
      using coalesce_case4 [OF _ x' n(1) [unfolded pre] n(2) [unfolded post], where F = F] P pre post by simp
  qed
qed

text \<open>Growing the heap by one free block.\<close>

lemma PInv_grow:
  assumes P: "PInv h bs F {}" and e: "16 \<le> e" "e mod 8 = 0"
    and fit: "mem_brk h + e \<le> mem_max_addr h"
    and h4: "h4 = h\<lparr>mem_brk := mem_brk h + e,
        mem := (mem h)(mem_brk h - 4 := tag e False, mem_brk h + e - 8 := tag e False,
                       mem_brk h + e - 4 := 1)\<rparr>"
  shows "PInv h4 (bs @ [(e, False)]) F {mem_brk h}"
proof -
  have C: "Chain h bs" and L: "Lists h bs F {}" using P by (simp_all add: PInv_def)
  have st: "static h" and so: "sizes_ok bs" and tot: "heap_listp h + 8 + totsize bs = mem_brk h"
    and pro: "mem h (heap_listp h - 4) = 9" "mem h (heap_listp h) = 9"
    and bo: "blocks_ok (mem h) (lay h bs)"
    using C by (simp_all add: Chain_def)
  note cb = chain_bounds [OF C]
  have old: "mem h4 p = mem h p" if "p < mem_brk h - 4" for p
    using that e(1) by (simp add: h4)
  have lay4: "lay h4 = lay h" by (simp add: h4)
  have C4: "Chain h4 (bs @ [(e, False)])"
    unfolding Chain_def
  proof (intro conjI)
    show "static h4" using st fit e(1) by (simp add: static_def class_ok_def h4)
    show "sizes_ok (bs @ [(e, False)])" using so e by simp
    show "heap_listp h4 + 8 + totsize (bs @ [(e, False)]) = mem_brk h4" using tot by (simp add: h4)
    show "mem h4 (heap_listp h4 - 4) = 9" using old [of "heap_listp h - 4"] pro(1) cb(3) by (simp add: h4)
    show "mem h4 (heap_listp h4) = 9" using old [of "heap_listp h"] pro(2) cb(3) by (simp add: h4)
    show "mem h4 (mem_brk h4 - 4) = 1" by (simp add: h4)
    have "blocks_ok (mem h4) (lay h bs)"
      unfolding blocks_ok_def
    proof (intro ball_tripleI)
      fix y t bl assume yin: "(y, t, bl) \<in> set (lay h bs)"
      note f = block_facts [OF C yin]
      have "mem h4 (y - 4) = mem h (y - 4)" "mem h4 (y + t - 8) = mem h (y + t - 8)"
        using f(3,4) by (auto intro!: old)
      then show "mem h4 (y - 4) = tag t bl \<and> mem h4 (y + t - 8) = tag t bl"
        using f(8,9) [OF refl] by simp
    qed
    moreover have "mem h4 (mem_brk h - 4) = tag e False" "mem h4 (mem_brk h + e - 8) = tag e False"
      using e(1) by (simp_all add: h4)
    ultimately show "blocks_ok (mem h4) (lay h4 (bs @ [(e, False)]))"
      using tot by (simp add: lay4)
  qed
  have La: "classes h4 k = (case F k of [] \<Rightarrow> 0 | a # r \<Rightarrow> a) \<and> links (mem h4) (F k) \<and>
        distinct (F k) \<and>
        (\<forall>a \<in> set (F k). a \<notin> {mem_brk h} \<and>
           (\<exists>s. (a, s, False) \<in> set (lay h4 (bs @ [(e, False)])) \<and> bucket_of s = k))"
    if k: "k < 7" for k
  proof -
    have mem_k: "mem h4 a = mem h a \<and> mem h4 (a + 4) = mem h (a + 4) \<and> a < mem_brk h
        \<and> (\<exists>s. (a, s, False) \<in> set (lay h bs) \<and> bucket_of s = k)" if "a \<in> set (F k)" for a
    proof -
      from member_facts [OF C L k that] obtain s where
        m: "(a, s, False) \<in> set (lay h bs)" "bucket_of s = k" by metis
      note f = block_facts [OF C m(1)]
      show ?thesis using f(3,4) m by (auto intro!: old)
    qed
    have "links (mem h4) (F k) = links (mem h) (F k)"
      using mem_k by (intro links_cong) (auto dest: in_set_tl)
    then have 1: "links (mem h4) (F k)" using L k by (simp add: Lists_def)
    have 2: "distinct (F k)" "classes h4 k = (case F k of [] \<Rightarrow> 0 | a # r \<Rightarrow> a)"
      using L k by (simp_all add: Lists_def h4)
    have 3: "a \<notin> {mem_brk h} \<and>
           (\<exists>s. (a, s, False) \<in> set (lay h4 (bs @ [(e, False)])) \<and> bucket_of s = k)"
      if "a \<in> set (F k)" for a using mem_k [OF that] by (auto simp add: lay4)
    show ?thesis using 1 2 3 by blast
  qed
  have Lb: "\<forall>(a, s, al) \<in> set (lay h4 (bs @ [(e, False)])).
      \<not> al \<longrightarrow> a \<in> {mem_brk h} \<or> a \<in> set (F (bucket_of s))"
  proof (intro ball_tripleI impI)
    fix a s al assume "(a, s, al) \<in> set (lay h4 (bs @ [(e, False)]))" "\<not> al"
    then consider "(a, s, False) \<in> set (lay h bs)" | "a = mem_brk h" using tot by (auto simp add: lay4)
    then show "a \<in> {mem_brk h} \<or> a \<in> set (F (bucket_of s))"
    proof cases
      case 1
      then show ?thesis using L by (auto simp add: Lists_def)
    qed simp
  qed
  have L4: "Lists h4 (bs @ [(e, False)]) F {mem_brk h}"
    unfolding Lists_def using La Lb by blast
  show ?thesis using C4 L4 by (simp add: PInv_def)
qed

lemma extend_heap_PInv:
  assumes P: "PInv h bs F {}" and n: "noadj bs" and e: "16 \<le> e" "e mod 8 = 0" "e < 2 ^ 31"
    and w: "(ucast (if words mod 2 \<noteq> 0 then (words + 1) * 4 else words * 4) :: u32) = word_of_int e"
  shows "\<exists>x' h'. extend_heap h words = Some (x', h') \<and>
     (x' = 0 \<and> h' = h \<and> mem_max_addr h < mem_brk h + e \<or>
      x' \<noteq> 0 \<and> (\<exists>F'. PInv h' (merged bs e []) F' {}) \<and> noadj (merged bs e []) \<and>
          heap_listp h' = heap_listp h \<and> allocs h' (merged bs e []) = allocs h bs \<and>
          x' = heap_listp h + 8 + totsize (pre_keep bs) \<and> mem_brk h + e \<le> mem_max_addr h)"
proof (cases "mem_brk h + e \<le> mem_max_addr h")
  case False
  have u: "unat (word_of_int e :: u32) = nat e" using e by (simp add: unat_eq_nat_uint uint_of_int32)
  show ?thesis using False e(1)
    by (simp only: extend_heap_def w Let_def) (simp add: u mem_sbrk_def)
next
  case True
  have C: "Chain h bs" using P by (simp add: PInv_def)
  note cb = chain_bounds [OF C]
  have st: "static h" using C by (simp add: Chain_def)
  define b where "b = mem_brk h"
  define h1 where "h1 = h\<lparr>mem_brk := b + e\<rparr>"
  define h2 where "h2 = h1\<lparr>mem := (mem h1)(b - 4 := tag e False)\<rparr>"
  define h3 where "h3 = h2\<lparr>mem := (mem h2)(b + e - 8 := tag e False)\<rparr>"
  define h4 where "h4 = h3\<lparr>mem := (mem h3)(b + e - 4 := 1)\<rparr>"
  have u: "unat (word_of_int e :: u32) = nat e" using e by (simp add: unat_eq_nat_uint uint_of_int32)
  have sb: "mem_sbrk h (nat e) = (b, h1)" using True e(1) by (simp add: mem_sbrk_def h1_def b_def)
  have st1: "static h1" using st True e(1) by (simp add: static_def class_ok_def h1_def b_def)
  have bm: "b mod 8 = 0" "heap_listp h + 8 \<le> b" using cb by (simp_all add: b_def)
  have wo: "word_ok h1 (b - 4)" "word_ok h1 (b + e - 8)" "word_ok h1 (b + e - 4)"
  proof -
    have hl: "heap_listp h1 = heap_listp h" "mem_brk h1 = b + e" by (simp_all add: h1_def)
    show "word_ok h1 (b - 4)"
      by (rule word_ok_heap [OF st1]) (use bm e(1,2) hl in presburger)+
    show "word_ok h1 (b + e - 8)"
      by (rule word_ok_heap [OF st1]) (use bm e(1,2) hl in presburger)+
    show "word_ok h1 (b + e - 4)"
      by (rule word_ok_heap [OF st1]) (use bm e(1,2) hl in presburger)+
  qed
  have e1: "PUT h1 (HDRP b) (PACK (word_of_int e) 0) = Some h2"
    using wo(1) by (simp add: PUT_def HDRP_def h2_def PACK_tag)
  have e2: "FTRP h2 b = Some (b + e - 8)"
    using raw_reads(6) [of h2 "b - 4" e False] wo(1) e by (simp add: h2_def)
  have e3: "PUT h2 (b + e - 8) (PACK (word_of_int e) 0) = Some h3"
    using wo(2) by (simp add: PUT_def h2_def h3_def PACK_tag)
  have e4: "NEXT_BLKP h3 b = Some (b + e)"
    using raw_reads(4) [of h3 "b - 4" e False] wo(1) e by (simp add: h2_def h3_def)
  have e5: "PUT h3 (HDRP (b + e)) (PACK 0 1) = Some h4"
    using wo(3) by (simp add: PUT_def HDRP_def h2_def h3_def h4_def PACK_def)
  have h4': "h4 = h\<lparr>mem_brk := mem_brk h + e,
        mem := (mem h)(mem_brk h - 4 := tag e False, mem_brk h + e - 8 := tag e False,
                       mem_brk h + e - 4 := 1)\<rparr>"
    by (simp add: h4_def h3_def h2_def h1_def b_def)
  have P4: "PInv h4 (bs @ (e, False) # []) F {b}"
    using PInv_grow [OF P e(1,2) True h4'] by (simp add: b_def)
  have bx: "b = heap_listp h4 + 8 + totsize bs"
    using C by (simp add: Chain_def b_def h4')
  from coalesce_PInv [OF P4 bx n] obtain x' h' bs' F' where
    co: "coalesce h4 b = Some (x', h')" and cd: "coalesced h4 bs e [] x' h' bs' F'"
    by auto
  have run: "extend_heap h words = Some (x', h')"
    using sb e1 e2 e3 e4 e5 co cb(3,4)
    by (simp only: extend_heap_def w Let_def) (simp add: u b_def)
  have bs': "bs' = merged bs e []" using cd by (simp add: coalesced_def)
  have r: "PInv h' (merged bs e []) F' {}" "noadj (merged bs e [])" "same_frame h4 h'"
      "allocs h' (merged bs e []) = allocs h4 (bs @ [(e, False)])"
      "bs' = merged bs e []" "x' = heap_listp h4 + 8 + totsize (pre_keep bs)"
    using cd unfolding coalesced_def bs' by simp_all
  have al: "allocs h4 (bs @ [(e, False)]) = allocs h bs"
    by (auto simp add: allocs_def h4')
  have so: "sizes_ok bs" using C by (simp add: Chain_def)
  have "sizes_ok (pre_keep bs)"
    using so by (auto simp add: pre_keep_def sizes_ok_def dest: in_set_butlastD)
  from totsize_nonneg [OF this] have "x' \<noteq> 0"
    using r(6) cb(4) by (simp add: h4')
  then show ?thesis
    using run r al True by (auto simp add: same_frame_def h4')
qed

lemma ucast_up: "0 \<le> c \<Longrightarrow> c < 2 ^ 32 \<Longrightarrow> (ucast (word_of_int c :: u32) :: size_t) = word_of_int c"
  by (simp add: ucast_eq uint_of_int32)

lemma ucast_down: "(ucast (word_of_int a :: size_t) :: u32) = word_of_int a"
proof -
  have "a mod 18446744073709551616 mod 4294967296 = a mod (4294967296 :: int)"
    by (rule mod_mod_cancel) simp
  then show ?thesis
    by (simp add: ucast_eq word_of_int_eq_iff take_bit_int_def uint_word_of_int)
qed

lemma ucast_down_diff:
  "(ucast (word_of_int c - word_of_int a :: size_t) :: u32) = word_of_int c - word_of_int a"
  using ucast_down [of "c - a"] by simp

lemma ucast_down_or1: "(ucast (word_of_int a OR 1 :: size_t) :: u32) = tag a True"
  by (simp add: tag_def ucast_down unsigned_or_eq)

lemma ucast_down_or0: "(ucast (word_of_int a OR 0 :: size_t) :: u32) = tag a False"
  by (simp add: tag_def ucast_down)

lemma size_t_ge16: "0 \<le> d \<Longrightarrow> d < 2 ^ 64 \<Longrightarrow> (16 \<le> (word_of_int d :: size_t)) = (16 \<le> d)"
  by (simp add: word_le_def uint_word_of_int take_bit_int_def)

lemma size_t_neg_ge16:
  assumes "- (2 ^ 63) \<le> d" "d < 0"
  shows "16 \<le> (word_of_int d :: size_t)"
proof -
  define d' where "d' = d + 2 ^ 64"
  have "(word_of_int d :: size_t) = word_of_int d'"
    by (simp add: word_of_int_eq_iff take_bit_int_def d'_def)
  moreover have "16 \<le> (word_of_int d' :: size_t)"
    using assms by (subst size_t_ge16) (simp_all add: d'_def)
  ultimately show ?thesis by (simp only:)
qed

lemma extend_words:
  assumes "0 \<le> e" "e mod 8 = 0" "e < 2 ^ 31"
  shows "(ucast (if (ucast ((word_of_int e :: u32) div 4) :: size_t) mod 2 \<noteq> 0
            then ((ucast ((word_of_int e :: u32) div 4) :: size_t) + 1) * 4
            else (ucast ((word_of_int e :: u32) div 4) :: size_t) * 4) :: u32) = word_of_int e"
proof -
  have d: "(word_of_int e :: u32) div 4 = word_of_int (e div 4)"
    using assms by (simp add: word_div_def uint_of_int32)
  have b: "0 \<le> e div 4" "e div 4 < 2 ^ 32" using assms by simp_all
  have w: "(ucast ((word_of_int e :: u32) div 4) :: size_t) = word_of_int (e div 4)"
    unfolding d using b by (rule ucast_up)
  have m: "(word_of_int (e div 4) :: size_t) mod 2 = 0"
  proof -
    have "e div 4 mod 2 = 0" using assms(2) by presburger
    moreover have "uint (word_of_int (e div 4) :: size_t) = e div 4"
      using b by (simp add: uint_word_of_int take_bit_int_def)
    ultimately show ?thesis by (simp add: word_mod_def)
  qed
  have t: "(word_of_int (e div 4) :: size_t) * 4 = word_of_int e"
  proof -
    have "e div 4 * 4 = e" using assms(2) by presburger
    then have "(word_of_int (e div 4) :: size_t) * word_of_int 4 = word_of_int e"
      by (simp only: wi_hom_mult)
    then show ?thesis by simp
  qed
  show ?thesis unfolding w m t by (simp add: ucast_down)
qed

lemma noadj_mid:
  assumes "noadj (pre @ (c, False) # post)"
  shows "noadj (pre @ [(c', True)] @ post)" "noadj (pre @ [(a, True), (r, False)] @ post)"
proof -
  have 1: "noadj pre" "noadj post" "post = [] \<or> snd (hd post)"
    using assms noadj_append [of pre "(c, False) # post"] by (cases post; auto)+
  show "noadj (pre @ [(c', True)] @ post)"
    using 1 noadj_append [of pre "(c', True) # post"] by (cases post) auto
  show "noadj (pre @ [(a, True), (r, False)] @ post)"
    using 1 noadj_append [of pre "(a, True) # (r, False) # post"] by (cases post) auto
qed

lemma place_PInv:
  assumes P: "PInv h (pre @ (c, False) # post) F {}" and n: "noadj (pre @ (c, False) # post)"
    and x: "x = heap_listp h + 8 + totsize pre"
    and a: "16 \<le> a" "a mod 8 = 0" "a \<le> c"
  shows "\<exists>h' bs' F'. place h x (word_of_int a) = Some h' \<and> PInv h' bs' F' {} \<and> noadj bs' \<and>
     same_frame h h' \<and> allocs h' bs' = insert x (allocs h (pre @ (c, False) # post)) \<and>
     (\<exists>s. (x, s, True) \<in> set (lay h' bs') \<and> a \<le> s)"
proof -
  let ?bs = "pre @ (c, False) # post"
  have C: "Chain h ?bs" using P by (simp add: PInv_def)
  have xin: "(x, c, False) \<in> set (lay h ?bs)" using x by simp
  note xr = block_reads [OF C xin] and xf = block_facts [OF C xin]
  from delete_from_class_PInv(1) [OF P xin] obtain h1 where
    d: "delete_from_class h x 2 = Some h1"
    and P1: "PInv h1 ?bs (F(bucket_of c := remove1 x (F (bucket_of c)))) {x}"
    and sf1: "same_frame h h1"
    by auto
  let ?F1 = "F(bucket_of c := remove1 x (F (bucket_of c)))"
  have C1: "Chain h1 ?bs" using P1 by (simp add: PInv_def)
  have lay1: "lay h1 = lay h" using sf1 by (simp add: same_frame_def)
  have x1: "x = heap_listp h1 + 8 + totsize pre" using x sf1 by (simp add: same_frame_def)
  note xw = block_word_ok [OF C1 xin [folded lay1]]
  have st1: "static h1" using C1 by (simp add: Chain_def)
  have k1: "(ucast (word_of_int c :: u32) :: size_t) - word_of_int a = word_of_int (c - a)"
    using xf(4,6) by (simp add: ucast_up)
  have a31: "a < 2 ^ 31" "0 \<le> a" using a xf(6) by simp_all
  have al0: "allocs h ?bs = allocs h (pre @ [(c, False)] @ post)" by simp
  show ?thesis
  proof (cases "16 \<le> c - a")
    case True
    have cond: "16 \<le> (word_of_int (c - a) :: size_t)"
      using True xf(6) a by (subst size_t_ge16) simp_all
    have r: "(c - a) mod 8 = 0" "c - a < 2 ^ 31" "0 \<le> c - a"
      using a xf(5,6) by (simp_all add: mod_diff_eq) presburger
    define h2 where "h2 = h1\<lparr>mem := (mem h1)(x - 4 := tag a True)\<rparr>"
    define h3 where "h3 = h2\<lparr>mem := (mem h2)(x + a - 8 := tag a True)\<rparr>"
    define h4 where "h4 = h3\<lparr>mem := (mem h3)(x + a - 4 := tag (c - a) False)\<rparr>"
    define h5 where "h5 = h4\<lparr>mem := (mem h4)(x + c - 8 := tag (c - a) False)\<rparr>"
    have wo: "word_ok h1 (x + a - 8)" "word_ok h1 (x + a - 4)"
    proof -
      have b: "heap_listp h1 + 8 \<le> x" "x + c \<le> mem_brk h1" "x mod 8 = 0"
        using block_facts(1,2,3) [OF C1 xin [folded lay1]] by simp_all
      show "word_ok h1 (x + a - 8)"
        by (rule word_ok_heap [OF st1]) (use b a in presburger)+
      show "word_ok h1 (x + a - 4)"
        by (rule word_ok_heap [OF st1]) (use b a in presburger)+
    qed
    have e2: "PUT h1 (HDRP x) (ucast (word_of_int a OR 1 :: size_t)) = Some h2"
      using xw(1) by (simp add: PUT_def HDRP_def h2_def ucast_down_or1 del: unsigned_or_eq)
    have e3: "FTRP h2 x = Some (x + a - 8)"
      using raw_reads(6) [of h2 "x - 4" a True] xw(1) a a31 by (simp add: h2_def)
    have e4: "PUT h2 (x + a - 8) (ucast (word_of_int a OR 1 :: size_t)) = Some h3"
      using wo(1) by (simp add: PUT_def h2_def h3_def ucast_down_or1 del: unsigned_or_eq)
    have e5: "NEXT_BLKP h3 x = Some (x + a)"
      using raw_reads(4) [of h3 "x - 4" a True] xw(1) a a31 by (simp add: h2_def h3_def)
    have e6: "PUT h3 (HDRP (x + a)) (ucast (word_of_int (c - a) OR 0 :: size_t)) = Some h4"
      using wo(2) by (simp add: PUT_def HDRP_def h2_def h3_def h4_def ucast_down_diff tag_def)
    have e7: "FTRP h4 (x + a) = Some (x + c - 8)"
      using raw_reads(6) [of h4 "x + a - 4" "c - a" False] wo(2) r True
      by (simp add: h2_def h3_def h4_def)
    have e8: "PUT h4 (x + c - 8) (ucast (word_of_int (c - a) OR 0 :: size_t)) = Some h5"
      using xw(4) by (simp add: PUT_def h2_def h3_def h4_def h5_def ucast_down_diff tag_def)
    have sf5: "same_frame h1 h5" by (simp add: h2_def h3_def h4_def h5_def)
    have P5: "PInv h5 (pre @ [(a, True), (c - a, False)] @ post) ?F1 {x + a}"
    proof (rule PInv_rewrite [where mid = "[(c, False)]" and a = x and h = h1])
      show "PInv h1 (pre @ [(c, False)] @ post) ?F1 {x}" using P1 by simp
      show "same_frame h1 h5" by (rule sf5)
      show "classes h5 = classes h1" by (simp add: h2_def h3_def h4_def h5_def)
      show "x = heap_listp h1 + 8 + totsize pre" by (rule x1)
      show "mem h5 p = mem h1 p" if "p < x - 4 \<or> x + totsize [(c, False)] - 4 \<le> p" for p
        using that a True by (auto simp add: h2_def h3_def h4_def h5_def)
      show "blocks_ok (mem h5) (layout x [(a, True), (c - a, False)])"
        using a True by (simp add: h2_def h3_def h4_def h5_def)
    qed (use a True r in auto)
    have yin: "(x + a, c - a, False) \<in> set (lay h5 (pre @ [(a, True), (c - a, False)] @ post))"
      using x1 sf5 by (simp add: same_frame_def)
    from append_to_class_PInv [OF P5 yin] obtain h6 where
      ap: "append_to_class h5 (x + a) (sint (word_of_int (c - a) :: u32)) = Some h6"
      and P6: "PInv h6 (pre @ [(a, True), (c - a, False)] @ post)
          (?F1(bucket_of (c - a) := (x + a) # ?F1 (bucket_of (c - a)))) {}"
      and sf6: "same_frame h5 h6"
      by auto
    have run: "place h x (word_of_int a) = Some h6"
      using xr(3) d cond e2 e3 e4 e5 e6 e7 e8 ap
      by (simp add: place_def HDRP_def k1 ucast_down_diff del: unsigned_or_eq)
    have sf: "same_frame h h6" using sf1 sf5 sf6 by (simp add: same_frame_def)
    have al: "allocs h6 (pre @ [(a, True), (c - a, False)] @ post) = insert x (allocs h ?bs)"
    proof -
      have "heap_listp h6 = heap_listp h" using sf by (simp add: same_frame_def)
      then show ?thesis unfolding al0 allocs_mid using x by auto
    qed
    have "(x, a, True) \<in> set (lay h6 (pre @ [(a, True), (c - a, False)] @ post))"
      using x sf by (simp add: same_frame_def)
    then show ?thesis using run P6 noadj_mid(2) [OF n] sf al by blast
  next
    case False
    have cond: "\<not> 16 \<le> (word_of_int (c - a) :: size_t)"
      using False xf(6) a by (subst size_t_ge16) simp_all
    define h2 where "h2 = h1\<lparr>mem := (mem h1)(x - 4 := tag c True)\<rparr>"
    define h3 where "h3 = h2\<lparr>mem := (mem h2)(x + c - 8 := tag c True)\<rparr>"
    have e2: "PUT h1 (HDRP x) (PACK (word_of_int c) 1) = Some h2"
      using xw(1) by (simp add: PUT_def HDRP_def h2_def PACK_tag)
    have e3: "FTRP h2 x = Some (x + c - 8)"
      using raw_reads(6) [of h2 "x - 4" c True] xw(1) xf(4,5,6) by (simp add: h2_def)
    have e4: "PUT h2 (x + c - 8) (PACK (word_of_int c) 1) = Some h3"
      using xw(4) by (simp add: PUT_def h2_def h3_def PACK_tag)
    have sf3: "same_frame h1 h3" by (simp add: h2_def h3_def)
    have P3: "PInv h3 (pre @ [(c, True)] @ post) ?F1 {}"
    proof (rule PInv_rewrite [where mid = "[(c, False)]" and a = x and h = h1])
      show "PInv h1 (pre @ [(c, False)] @ post) ?F1 {x}" using P1 by simp
      show "same_frame h1 h3" by (rule sf3)
      show "classes h3 = classes h1" by (simp add: h2_def h3_def)
      show "x = heap_listp h1 + 8 + totsize pre" by (rule x1)
      show "mem h3 p = mem h1 p" if "p < x - 4 \<or> x + totsize [(c, False)] - 4 \<le> p" for p
        using that xf(4) by (auto simp add: h2_def h3_def)
      show "blocks_ok (mem h3) (layout x [(c, True)])"
        using xf(4) by (simp add: h2_def h3_def)
    qed (use xf(4,5) in auto)
    have run: "place h x (word_of_int a) = Some h3"
      using xr(3) d cond e2 e3 e4 by (simp add: place_def HDRP_def k1)
    have sf: "same_frame h h3" using sf1 sf3 by (simp add: same_frame_def)
    have al: "allocs h3 (pre @ [(c, True)] @ post) = insert x (allocs h ?bs)"
    proof -
      have "heap_listp h3 = heap_listp h" using sf by (simp add: same_frame_def)
      then show ?thesis unfolding al0 allocs_mid using x by auto
    qed
    have "(x, c, True) \<in> set (lay h3 (pre @ [(c, True)] @ post))"
      using x sf by (simp add: same_frame_def)
    then show ?thesis using run P3 noadj_mid(1) [OF n] sf al a(3) by blast
  qed
qed

lemma place_fault:
  assumes P: "PInv h bs F {}" and xin: "(x, c, False) \<in> set (lay h bs)"
    and a: "a mod 8 = 0" "c < a" "a < 2 ^ 32" and far: "mem_brk h < x + a"
  shows "place h x (word_of_int a) = None"
proof -
  have C: "Chain h bs" using P by (simp add: PInv_def)
  note xr = block_reads [OF C xin] and xf = block_facts [OF C xin]
  from delete_from_class_PInv(1) [OF P xin] obtain h1 where
    d: "delete_from_class h x 2 = Some h1" and sf1: "same_frame h h1"
    and P1: "PInv h1 bs (F(bucket_of c := remove1 x (F (bucket_of c)))) {x}"
    by auto
  have C1: "Chain h1 bs" using P1 by (simp add: PInv_def)
  have lay1: "lay h1 = lay h" using sf1 by (simp add: same_frame_def)
  note xw = block_word_ok [OF C1 xin [folded lay1]]
  have k1: "(ucast (word_of_int c :: u32) :: size_t) - word_of_int a = word_of_int (c - a)"
    using xf(4,6) by (simp add: ucast_up)
  have cond: "16 \<le> (word_of_int (c - a) :: size_t)"
    using a xf(4) by (intro size_t_neg_ge16) simp_all
  define h2 where "h2 = h1\<lparr>mem := (mem h1)(x - 4 := tag a True)\<rparr>"
  have e2: "PUT h1 (HDRP x) (ucast (word_of_int a OR 1 :: size_t)) = Some h2"
    using xw(1) by (simp add: PUT_def HDRP_def h2_def ucast_down_or1 del: unsigned_or_eq)
  have "GET_SIZE h2 (x - 4) = Some (word_of_int a)"
    using xw(1) a(1) by (simp add: GET_SIZE_def GET_def h2_def tag_size')
  then have e3: "FTRP h2 x = Some (x + a - 8)"
    using a xf(4) by (simp add: FTRP_def HDRP_def uint_size_minus8)
  have "mem_brk h mod 8 = 0" using chain_bounds(2) [OF C] .
  then have "mem_brk h + 8 \<le> x + a" using far xf(1) a(1) by presburger
  then have "\<not> word_ok h2 (x + a - 8)"
    using sf1 by (simp add: word_ok_def h2_def same_frame_def)
  then have e4: "PUT h2 (x + a - 8) v = None" for v
    by (simp add: PUT_def)
  show ?thesis
    using xr(3) d cond e2 e3 e4
    by (simp add: place_def HDRP_def k1 del: unsigned_or_eq)
qed

lemma scan_fits_result:
  "scan_fits h asize ks = 0 \<or>
   (\<exists>k \<in> set ks. classes h k = scan_fits h asize ks \<and> classes h k \<noteq> 0 \<and>
      fits (mem h (classes h k - 4) AND NOT 7) asize)"
  by (induction ks) auto

lemma find_fit_PInv:
  assumes P: "PInv h bs F {}"
  shows "\<exists>r. find_fit h asize = Some r \<and>
     (r = 0 \<or> (\<exists>c. (r, c, False) \<in> set (lay h bs) \<and> fits (word_of_int c) asize))"
proof -
  have C: "Chain h bs" and L: "Lists h bs F {}" using P by (simp_all add: PInv_def)
  have hd: "\<exists>c. (classes h k, c, False) \<in> set (lay h bs)" if "k < 7" "classes h k \<noteq> 0" for k
  proof -
    have "classes h k = (case F k of [] \<Rightarrow> 0 | a # r \<Rightarrow> a)" using L that(1) by (simp add: Lists_def)
    then have "classes h k \<in> set (F k)" using that(2) by (cases "F k") auto
    from member_facts [OF C L that(1) this] show ?thesis by metis
  qed
  have "class_ok h 0" using C by (simp add: Chain_def static_def)
  moreover have "\<forall>k<7. classes h k \<noteq> 0 \<longrightarrow> word_ok h (classes h k - 4)"
    using hd block_word_ok(1) [OF C] by blast
  ultimately have ff: "find_fit h asize = Some (scan_fits h asize [bucket_of (uint asize) ..< 7])"
    by (rule find_fit_scan_fits)
  let ?r = "scan_fits h asize [bucket_of (uint asize) ..< 7]"
  have "\<exists>c. (?r, c, False) \<in> set (lay h bs) \<and> fits (word_of_int c) asize" if "?r \<noteq> 0"
  proof -
    from scan_fits_result [of h asize "[bucket_of (uint asize) ..< 7]"] that obtain k where
      k: "k < 7" "classes h k = ?r" "classes h k \<noteq> 0" "fits (mem h (classes h k - 4) AND NOT 7) asize"
      by auto
    from hd [OF k(1,3)] obtain c where c: "(classes h k, c, False) \<in> set (lay h bs)" by blast
    note f = block_facts [OF C c]
    have "mem h (classes h k - 4) AND NOT 7 = word_of_int c"
      using f(8) [OF refl] f(5) by (simp add: tag_size')
    then show ?thesis using k c by auto
  qed
  then show ?thesis using ff by auto
qed

lemma asz_facts:
  assumes "0 < n" "n \<le> 4294967280"
  shows "16 \<le> asz n" "asz n mod 8 = 0" "asz n < 2 ^ 32" "n + 8 \<le> asz n" "0 \<le> asz n"
  using assms by (auto simp add: asz_def)

lemma malloc_asize:
  assumes "0 < uint sz" "uint sz \<le> 4294967280"
  shows "(if (sz :: size_t) \<le> 8 then 8 + 8 else ucast (8 * ((sz + 8 + (8 - 1)) div 8)) :: u32)
     = word_of_int (asz (uint sz))"
proof -
  define n where "n = uint sz"
  have sz: "sz = word_of_int n" by (simp add: n_def)
  have n: "0 < n" "n \<le> 4294967280" using assms by (simp_all add: n_def)
  have le: "(sz \<le> 8) = (n \<le> 8)" by (simp add: word_le_def n_def)
  define m where "m = n + 15"
  have mb: "0 \<le> m" "m < 2 ^ 64" using n by (simp_all add: m_def)
  have u15: "uint (word_of_int m :: size_t) = m"
    using mb by (simp add: uint_word_of_int take_bit_int_def)
  have "sz + 8 + (8 - 1) = word_of_int m" by (simp add: sz m_def)
  then have d: "(sz + 8 + (8 - 1)) div 8 = word_of_int (m div 8)"
    using u15 by (simp add: word_div_def)
  have m: "8 * (word_of_int (m div 8) :: size_t) = word_of_int (8 * (m div 8))"
    by simp
  show ?thesis
    unfolding le d m ucast_down by (simp add: asz_def m_def n_def)
qed

lemma malloc_extendsize:
  assumes "0 \<le> a" "a < 2 ^ 32"
  shows "(if (word_of_int a :: u32) > 65536 then 65536 else word_of_int a) = word_of_int (min a 65536)"
  using assms by (simp add: word_less_def uint_of_int32 min_def)

lemma mm_malloc_unfold:
  assumes "0 < uint sz" "uint sz \<le> 4294967280"
  shows "mm_malloc h sz = do {
     bp \<leftarrow> find_fit h (word_of_int (asz (uint sz)));
     if bp \<noteq> 0 then do {
       h1 \<leftarrow> place h bp (word_of_int (asz (uint sz)));
       Some (bp, h1)
     } else do {
       (bp, h1) \<leftarrow> extend_heap h (ucast ((word_of_int (min (asz (uint sz)) 65536) :: u32) div 4));
       if bp = 0 then Some (0, h1)
       else do {
         h2 \<leftarrow> place h1 bp (word_of_int (asz (uint sz)));
         Some (bp, h2) }
     }
   }"
proof -
  note f = asz_facts [OF assms]
  have nz: "\<not> sz \<le> 0" using assms(1) by (simp add: word_le_def)
  show ?thesis
    unfolding mm_malloc_def malloc_asize [OF assms] Let_def ucast_up [OF f(5,3)]
      malloc_extendsize [OF f(5,3)]
    using nz by (simp only: if_False)
qed

lemma merged_last: "merged bs e [] = pre_keep bs @ (pre_size bs + e, False) # []"
  by (simp add: merged_def post_keep_def post_size_def)

lemma mm_malloc_PInv:
  assumes P: "PInv h bs F {}" and n: "noadj bs" and sz: "uint sz \<le> 4294967280"
    and res: "mm_malloc h sz = Some (p, h')"
  shows "\<exists>bs' F'. PInv h' bs' F' {} \<and> noadj bs' \<and> heap_listp h' = heap_listp h \<and>
     (p = 0 \<and> allocs h' bs' = allocs h bs \<or>
      p \<noteq> 0 \<and> allocs h' bs' = insert p (allocs h bs) \<and>
        (\<exists>s. (p, s, True) \<in> set (lay h' bs') \<and> uint sz + 8 \<le> s))"
proof (cases "uint sz = 0")
  case True
  then have "sz \<le> 0" by (simp add: word_le_def)
  then have "p = 0" "h' = h" using res by (simp_all add: mm_malloc_def)
  then show ?thesis using P n by blast
next
  case False
  then have pos: "0 < uint sz" by (simp add: less_le)
  define a where "a = asz (uint sz)"
  define e where "e = min a 65536"
  note f = asz_facts [OF pos sz, folded a_def]
  have ef: "16 \<le> e" "e mod 8 = 0" "e < 2 ^ 31" "0 \<le> e"
    using f by (auto simp add: e_def min_def)
  note un = mm_malloc_unfold [OF pos sz, of h, folded a_def, folded e_def]
  have C: "Chain h bs" using P by (simp add: PInv_def)
  from find_fit_PInv [OF P, of "word_of_int a"] obtain r where
    ff: "find_fit h (word_of_int a) = Some r"
    and rr: "r = 0 \<or> (\<exists>c. (r, c, False) \<in> set (lay h bs) \<and> fits (word_of_int c) (word_of_int a :: size_t))"
    by blast
  show ?thesis
  proof (cases "r = 0")
    case False
    with rr obtain c where cin: "(r, c, False) \<in> set (lay h bs)"
      and fit: "fits (word_of_int c) (word_of_int a :: size_t)" by blast
    have pl: "place h r (word_of_int a) = Some h'" and pr: "p = r"
      using res False unfolding un ff by (auto simp add: bind_eq_Some_conv)
    note cf = block_facts [OF C cin]
    have ac: "a \<le> c"
    proof (rule ccontr)
      assume "\<not> a \<le> c"
      then have ca: "c < a" by simp
      have big: "2 ^ 31 \<le> a"
      proof (rule ccontr)
        assume "\<not> 2 ^ 31 \<le> a"
        then have a31: "a < 2 ^ 31" by simp
        have "uint (word_of_int c :: u32) < 2 ^ 31" "uint (word_of_int a :: size_t) < 2 ^ 31"
          "uint (word_of_int a :: size_t) = a" "uint (word_of_int c :: u32) = c"
          using cf(4,6) a31 f(5) by (simp_all add: uint_word_of_int take_bit_int_def)
        with fits_iff [of "word_of_int c" "word_of_int a"] fit ca show False by simp
      qed
      have "mem_brk h - r < 2 ^ 31"
        using cf(2) by (intro block_size_bound [OF C]) simp_all
      then have "mem_brk h < r + a" using big by simp
      from place_fault [OF P cin f(2) ca f(3) this] pl show False by simp
    qed
    from in_layout_split [OF cin] obtain pre post where
      bs: "bs = pre @ (c, False) # post" and rx: "r = heap_listp h + 8 + totsize pre" by auto
    from place_PInv [OF P [unfolded bs] n [unfolded bs] rx f(1,2) ac] pl
    obtain bs' F' s where
      q: "PInv h' bs' F' {}" "noadj bs'" "same_frame h h'" "allocs h' bs' = insert r (allocs h bs)"
      "(r, s, True) \<in> set (lay h' bs')" "a \<le> s"
      unfolding bs by auto
    have "heap_listp h' = heap_listp h" using q(3) by (simp add: same_frame_def)
    moreover have "uint sz + 8 \<le> s" using q(6) f(4) by simp
    ultimately show ?thesis
      using q(1,2,4,5) pr False by (intro exI [of _ bs'] exI [of _ F']) auto
  next
    case True
    define words :: size_t where "words = ucast ((word_of_int e :: u32) div 4)"
    have w: "(ucast (if words mod 2 \<noteq> 0 then (words + 1) * 4 else words * 4) :: u32) = word_of_int e"
      unfolding words_def using ef by (intro extend_words) simp_all
    from extend_heap_PInv [OF P n ef(1,2,3) w] obtain x' h1 where
      ex: "extend_heap h words = Some (x', h1)"
      and dj: "x' = 0 \<and> h1 = h \<and> mem_max_addr h < mem_brk h + e \<or>
        x' \<noteq> 0 \<and> (\<exists>F'. PInv h1 (merged bs e []) F' {}) \<and> noadj (merged bs e []) \<and>
          heap_listp h1 = heap_listp h \<and> allocs h1 (merged bs e []) = allocs h bs \<and>
          x' = heap_listp h + 8 + totsize (pre_keep bs) \<and> mem_brk h + e \<le> mem_max_addr h"
      by blast
    show ?thesis
    proof (cases "x' = 0")
      case True
      then have "p = 0" "h' = h"
        using res dj \<open>r = 0\<close> unfolding un ff ex [unfolded words_def] by auto
      then show ?thesis using P n by blast
    next
      case False
      then have pl: "place h1 x' (word_of_int a) = Some h'" and pr: "p = x'"
        using res \<open>r = 0\<close> unfolding un ff ex [unfolded words_def] by (auto simp add: bind_eq_Some_conv)
      define c where "c = pre_size bs + e"
      from dj False obtain F1 where
        P1: "PInv h1 (pre_keep bs @ (c, False) # []) F1 {}" and n1: "noadj (pre_keep bs @ (c, False) # [])"
        and hl: "heap_listp h1 = heap_listp h"
        and al: "allocs h1 (pre_keep bs @ (c, False) # []) = allocs h bs"
        and x': "x' = heap_listp h1 + 8 + totsize (pre_keep bs)"
        unfolding merged_last c_def by auto
      have C1: "Chain h1 (pre_keep bs @ (c, False) # [])" using P1 by (simp add: PInv_def)
      have cin: "(x', c, False) \<in> set (lay h1 (pre_keep bs @ (c, False) # []))" using x' by simp
      have ac: "a \<le> c"
      proof (rule ccontr)
        assume "\<not> a \<le> c"
        then have ca: "c < a" by simp
        have "mem_brk h1 = x' + c" using C1 x' by (simp add: Chain_def)
        then have "mem_brk h1 < x' + a" using ca by simp
        from place_fault [OF P1 cin f(2) ca f(3) this] pl show False by simp
      qed
      from place_PInv [OF P1 n1 x' f(1,2) ac] pl
      obtain bs' F' s where
        q: "PInv h' bs' F' {}" "noadj bs'" "same_frame h1 h'" "allocs h' bs' = insert x' (allocs h bs)"
        "(x', s, True) \<in> set (lay h' bs')" "a \<le> s"
        unfolding al by auto
      have "heap_listp h' = heap_listp h" using q(3) hl by (simp add: same_frame_def)
      moreover have "uint sz + 8 \<le> s" using q(6) f(4) by simp
      ultimately show ?thesis
        using q(1,2,4,5) pr False by (intro exI [of _ bs'] exI [of _ F']) auto
    qed
  qed
qed

lemma mm_free_PInv:
  assumes P: "PInv h (pre @ (s, True) # post) F {}" and n: "noadj (pre @ (s, True) # post)"
    and p: "p = heap_listp h + 8 + totsize pre"
  shows "\<exists>h' F'. mm_free h p = Some h' \<and> PInv h' (merged pre s post) F' {} \<and>
     noadj (merged pre s post) \<and> same_frame h h' \<and>
     allocs h' (merged pre s post) = allocs h (pre @ (s, True) # post) - {p}"
proof -
  let ?bs = "pre @ (s, True) # post"
  have C: "Chain h ?bs" using P by (simp add: PInv_def)
  have pin: "(p, s, True) \<in> set (lay h ?bs)" using p by simp
  note pr = block_reads [OF C pin] and pf = block_facts [OF C pin] and pw = block_word_ok [OF C pin]
  have so: "sizes_ok pre" "sizes_ok post" using C by (simp_all add: Chain_def)
  define h1 where "h1 = h\<lparr>mem := (mem h)(p - 4 := tag s False)\<rparr>"
  define h2 where "h2 = h1\<lparr>mem := (mem h1)(p + s - 8 := tag s False)\<rparr>"
  have e1: "PUT h (HDRP p) (PACK (word_of_int s) 0) = Some h1"
    using pw(1) by (simp add: PUT_def HDRP_def h1_def PACK_tag)
  have e2: "FTRP h1 p = Some (p + s - 8)"
    using raw_reads(6) [of h1 "p - 4" s False] pw(1) pf(4,5,6) by (simp add: h1_def)
  have e3: "PUT h1 (p + s - 8) (PACK (word_of_int s) 0) = Some h2"
    using pw(4) by (simp add: PUT_def h1_def h2_def PACK_tag)
  have sf2: "same_frame h h2" by (simp add: h1_def h2_def)
  have P2: "PInv h2 (pre @ [(s, False)] @ post) F {p}"
  proof (rule PInv_rewrite [where mid = "[(s, True)]" and a = p and h = h and X = "{}"])
    show "PInv h (pre @ [(s, True)] @ post) F {}" using P by simp
    show "same_frame h h2" by (rule sf2)
    show "classes h2 = classes h" by (simp add: h1_def h2_def)
    show "p = heap_listp h + 8 + totsize pre" by (rule p)
    show "mem h2 q = mem h q" if "q < p - 4 \<or> p + totsize [(s, True)] - 4 \<le> q" for q
      using that pf(4) by (auto simp add: h1_def h2_def)
    show "blocks_ok (mem h2) (layout p [(s, False)])"
      using pf(4) by (simp add: h1_def h2_def)
  qed (use pf(4,5) in auto)
  then have P2': "PInv h2 (pre @ (s, False) # post) F {p}" by simp
  have p2: "p = heap_listp h2 + 8 + totsize pre" using p by (simp add: h1_def h2_def)
  have nn: "noadj pre" "noadj post"
    using n noadj_append [of pre "(s, True) # post"] noadj_append [of "[(s, True)]" post] by auto
  from coalesce_PInv [OF P2' p2 nn] obtain x' h' bs' F' where
    co: "coalesce h2 p = Some (x', h')" and cd: "coalesced h2 pre s post x' h' bs' F'"
    by auto
  have run: "mm_free h p = Some h'"
    using pr(3) e1 e2 e3 co by (simp add: mm_free_def HDRP_def)
  have bs': "bs' = merged pre s post" using cd by (simp add: coalesced_def)
  have r: "PInv h' (merged pre s post) F' {}" "noadj (merged pre s post)" "same_frame h2 h'"
    "allocs h' (merged pre s post) = allocs h2 (pre @ (s, False) # post)"
    using cd unfolding coalesced_def bs' by simp_all
  have np: "a \<noteq> p" if "(a, t, al) \<in> set (lay h pre) \<or>
      (a, t, al) \<in> set (layout (heap_listp h + 8 + totsize pre + s) post)" for a t al
    using that in_layout_bounds [OF so(1), of a t al "heap_listp h + 8"]
      in_layout_bounds [OF so(2), of a t al "heap_listp h + 8 + totsize pre + s"] p pf(4)
    by auto
  have "allocs h2 (pre @ [(s, False)] @ post) = allocs h (pre @ [(s, True)] @ post) - {p}"
    unfolding allocs_mid using p np by (auto simp add: h1_def h2_def)
  then have al: "allocs h' (merged pre s post) = allocs h ?bs - {p}"
    using r(4) by simp
  have "same_frame h h'" using sf2 r(3) by (rule same_frame_trans)
  then show ?thesis using run r(1,2) al by blast
qed

lemma PUTB_frame:
  assumes "PUTB h p b = Some h'"
  shows "same_frame h h'" "classes h' = classes h" "q \<noteq> p - p mod 4 \<Longrightarrow> mem h' q = mem h q"
  using assms by (auto simp add: PUTB_def bind_eq_Some_conv PUT_eq_Some)

lemma memcpy_frame:
  "memcpy h d s n = Some h' \<Longrightarrow>
     same_frame h h' \<and> classes h' = classes h \<and>
     (\<forall>q. q + 4 \<le> d \<or> d + int n \<le> q \<longrightarrow> mem h' q = mem h q)"
proof (induction n arbitrary: h d s)
  case 0
  then show ?case by simp
next
  case (Suc n)
  from Suc.prems obtain b h1 where
    g: "GETB h s = Some b" and pb: "PUTB h d b = Some h1"
    and m: "memcpy h1 (d + 1) (s + 1) n = Some h'"
    by (auto simp add: bind_eq_Some_conv)
  note ih = Suc.IH [OF m] and fr = PUTB_frame [OF pb]
  have "mem h' q = mem h q" if "q + 4 \<le> d \<or> d + int (Suc n) \<le> q" for q
  proof -
    have "q \<noteq> d - d mod 4" using that by (simp add: algebra_simps) presburger
    then have "mem h1 q = mem h q" by (rule fr(3))
    moreover have "mem h' q = mem h1 q" using ih that by auto
    ultimately show ?thesis by simp
  qed
  then show ?case using ih fr(1,2) same_frame_trans by auto
qed

lemma mm_realloc_PInv:
  assumes P: "PInv h bs F {}" and n: "noadj bs" and p: "p \<in> allocs h bs"
    and sz: "uint sz \<le> 4294967280"
    and res: "mm_realloc h p sz = Some (Returned q, h')"
  shows "\<exists>bs' F'. PInv h' bs' F' {} \<and> noadj bs' \<and> heap_listp h' = heap_listp h \<and>
     allocs h' bs' = insert q (allocs h bs) - {p}"
proof -
  from res obtain h1 cs h2 where
    ma: "mm_malloc h sz = Some (q, h1)" and q0: "q \<noteq> 0"
    and cs: "realloc_copySize h1 p sz = Some cs"
    and mc: "memcpy h1 q p (unat cs) = Some h2"
    and fr: "mm_free h2 p = Some h'"
    by (auto simp add: mm_realloc_def bind_eq_Some_conv split: if_splits)
  from mm_malloc_PInv [OF P n sz ma] q0 obtain bs1 F1 s where
    P1: "PInv h1 bs1 F1 {}" and n1: "noadj bs1" and hl1: "heap_listp h1 = heap_listp h"
    and al1: "allocs h1 bs1 = insert q (allocs h bs)"
    and qin: "(q, s, True) \<in> set (lay h1 bs1)" and qs: "uint sz + 8 \<le> s"
    by auto
  have "cs \<le> sz" using cs by (auto simp add: realloc_copySize_def bind_eq_Some_conv Let_def)
  then have len: "int (unat cs) \<le> s - 8"
    using qs by (simp add: word_le_def)
  note mf = memcpy_frame [OF mc]
  from in_layout_split [OF qin] obtain pre post where
    bs1: "bs1 = pre @ (s, True) # post" and qx: "q = heap_listp h1 + 8 + totsize pre" by auto
  have C1: "Chain h1 bs1" using P1 by (simp add: PInv_def)
  note qf = block_facts [OF C1 qin]
  have P2: "PInv h2 (pre @ [(s, True)] @ post) F1 {}"
  proof (rule PInv_rewrite [where mid = "[(s, True)]" and a = q and h = h1 and X = "{}"])
    show "PInv h1 (pre @ [(s, True)] @ post) F1 {}" using P1 bs1 by simp
    show "same_frame h1 h2" using mf by simp
    show "classes h2 = classes h1" using mf by simp
    show "q = heap_listp h1 + 8 + totsize pre" by (rule qx)
    show "mem h2 r = mem h1 r" if "r < q - 4 \<or> q + totsize [(s, True)] - 4 \<le> r" for r
      using that mf len by auto
    have "mem h2 (q - 4) = mem h1 (q - 4)" "mem h2 (q + s - 8) = mem h1 (q + s - 8)"
      using mf len by auto
    then show "blocks_ok (mem h2) (layout q [(s, True)])"
      using qf(8,9) [OF refl] by simp
  qed (use qf(4,5) in auto)
  then have P2': "PInv h2 bs1 F1 {}" using bs1 by simp
  have sf: "same_frame h1 h2" using mf by simp
  have "p \<in> allocs h2 bs1" using p al1 allocs_frame [OF sf] by simp
  then obtain t where "(p, t, True) \<in> set (lay h2 bs1)" by (auto simp add: allocs_def)
  from in_layout_split [OF this] obtain pre' post' where
    bs1': "bs1 = pre' @ (t, True) # post'" and px: "p = heap_listp h2 + 8 + totsize pre'" by auto
  from mm_free_PInv [OF P2' [unfolded bs1'] n1 [unfolded bs1'] px] fr obtain F' where
    r: "PInv h' (merged pre' t post') F' {}" "noadj (merged pre' t post')" "same_frame h2 h'"
      "allocs h' (merged pre' t post') = allocs h2 bs1 - {p}"
    unfolding bs1' by auto
  have "heap_listp h' = heap_listp h" using r(3) sf hl1 by (simp add: same_frame_def)
  moreover have "allocs h' (merged pre' t post') = insert q (allocs h bs) - {p}"
    using r(4) al1 allocs_frame [OF sf] by simp
  ultimately show ?thesis using r(1,2) by blast
qed

lemma singleton_list: "distinct xs \<Longrightarrow> set xs \<subseteq> {x} \<Longrightarrow> xs = [] \<or> xs = [x]"
proof (cases xs)
  case (Cons a ys)
  assume d: "distinct xs" and s: "set xs \<subseteq> {x}"
  then have "a = x" "set ys \<subseteq> {x}" "x \<notin> set ys" using Cons by auto
  then have "ys = []" by (cases ys) auto
  then show ?thesis using Cons \<open>a = x\<close> by simp
qed simp

lemma init_words:
  "(ucast (if (65536 div 4 :: size_t) mod 2 \<noteq> 0 then ((65536 div 4 + 1) * 4 :: size_t)
            else 65536 div 4 * 4) :: u32) = word_of_int 65536"
  by simp

lemma mm_init_PInv:
  assumes s0: "0 \<le> mem_start_brk h" and cap: "mem_max_addr h - mem_start_brk h < 2 ^ 31"
    and c6: "classes h 6 = 0"
    and res: "mm_init h = Some (0, h')"
  shows "\<exists>F. PInv h' [(65536, False)] F {}"
proof -
  from res obtain h1 h2 where
    r1: "mm_init_classes h = Some (True, h1)" and r2: "mm_init_heap h1 = Some (True, h2)"
    and r3: "mm_init_extend h2 = Some (0, h')"
    by (auto simp add: mm_init_def bind_eq_Some_conv split: if_splits)
  define b where "b = mem_brk h"
  note i1 = mm_init_classes_True [OF r1, folded b_def]
  have pc: "ptr_classes h1 + 56 = mem_brk h1" using i1 by simp
  note i2 = mm_init_heap_True [OF r2 pc]
  have h2: "mem_brk h2 = b + 72" "ptr_classes h2 = b" "heap_listp h2 = b + 64"
    "mem_start_brk h2 = mem_start_brk h" "mem_max_addr h2 = mem_max_addr h"
    "mem h2 (b + 60) = 9" "mem h2 (b + 64) = 9" "mem h2 (b + 68) = 1"
    "\<forall>k<7. classes h2 k = 0"
  proof -
    have e: "h2 = h1\<lparr>mem_brk := mem_brk h1 + 16,
          mem := (mem h1)(mem_brk h1 := 0, mem_brk h1 + 4 := PACK 8 1, mem_brk h1 + 8 := PACK 8 1,
                         mem_brk h1 + 12 := PACK 0 1),
          heap_listp := mem_brk h1 + 8\<rparr>" using i2 by simp
    have e1: "h1 = h\<lparr>mem_brk := b + 56, classes := (classes h)(0 := 0, 1 := 0, 2 := 0, 3 := 0, 4 := 0, 5 := 0),
          ptr_classes := b\<rparr>" using i1 by simp
    show "mem_brk h2 = b + 72" "ptr_classes h2 = b" "heap_listp h2 = b + 64"
      "mem_start_brk h2 = mem_start_brk h" "mem_max_addr h2 = mem_max_addr h"
      "mem h2 (b + 60) = 9" "mem h2 (b + 64) = 9" "mem h2 (b + 68) = 1"
      by (simp_all add: e e1 PACK_def)
    show "\<forall>k<7. classes h2 k = 0"
    proof (intro allI impI)
      fix k :: nat assume "k < 7"
      then consider "k = 0" | "k = 1" | "k = 2" | "k = 3" | "k = 4" | "k = 5" | "k = 6" by linarith
      then show "classes h2 k = 0" using c6 by cases (simp_all add: e e1)
    qed
  qed
  have bb: "b mod 8 = 0" "mem_start_brk h \<le> b" "b + 72 \<le> mem_max_addr h"
    using i1 i2 by (simp_all add: b_def)
  have m2: "mem h2 (heap_listp h2 - 4) = 9" "mem h2 (heap_listp h2) = 9" "mem h2 (mem_brk h2 - 4) = 1"
    using h2(6,7,8) by (simp_all add: h2(1,3) add.commute)
  have C2: "Chain h2 []"
    unfolding Chain_def static_def class_ok_def
    using m2 h2(1,2,3,4,5) bb s0 cap by simp
  have L2: "Lists h2 [] (\<lambda>k. []) {}"
    using h2(9) by (simp add: Lists_def links_def)
  have P2: "PInv h2 [] (\<lambda>k. []) {}" using C2 L2 by (simp add: PInv_def)
  from r3 obtain bp h3 where
    ex: "extend_heap h2 (65536 div 4) = Some (bp, h3)" and b0: "bp \<noteq> 0"
    and h': "h' = h3\<lparr>classes := (classes h3)(6 := heap_listp h3 + 8),
        mem := (mem h3)(heap_listp h3 + 8 := 0, heap_listp h3 + 12 := 0)\<rparr>"
    by (auto simp add: mm_init_extend_def bind_eq_Some_conv set_class_eq_Some get_class_eq_Some
        PUT_eq_Some add.commute split: if_splits)
  have mg: "merged [] 65536 [] = [(65536, False)]" "pre_keep [] = []"
    by (simp_all add: merged_last pre_keep_def pre_size_def)
  from extend_heap_PInv [OF P2 _ _ _ _ init_words] ex b0 obtain F3 where
    P3: "PInv h3 [(65536, False)] F3 {}" and hl: "heap_listp h3 = heap_listp h2"
    unfolding mg by auto
  define x where "x = heap_listp h3 + 8"
  have C3: "Chain h3 [(65536, False)]" and L3: "Lists h3 [(65536, False)] F3 {}"
    using P3 by (simp_all add: PInv_def)
  have b6: "bucket_of 65536 = 6" by (simp add: bucket_of_def)
  have mem6: "x \<in> set (F3 6)" using L3 b6 by (simp add: Lists_def x_def)
  have sub: "set (F3 k) \<subseteq> {x} \<and> (k \<noteq> 6 \<longrightarrow> F3 k = [])" if "k < 7" for k
  proof -
    have "\<forall>a \<in> set (F3 k). a = x \<and> k = 6"
      using L3 that b6 by (auto simp add: Lists_def x_def)
    then show ?thesis by (cases "F3 k") auto
  qed
  have "distinct (F3 6)" using L3 by (simp add: Lists_def)
  from singleton_list [OF this, of x] sub [of 6] mem6 have F6: "F3 6 = [x]" by auto
  have "links (mem h3) (F3 6)" using L3 by (simp add: Lists_def)
  then have z: "mem h3 (x + 4) = 0" by (simp add: F6 links_def)
  have c6': "classes h3 6 = x" using L3 by (simp add: Lists_def F6)
  have sf: "same_frame h3 h'" by (simp add: h')
  have C': "Chain h' [(65536, False)]"
  proof (rule Chain_link_upd [OF C3 sf])
    fix p assume "mem h' p \<noteq> mem h3 p"
    then have "p = x \<or> p = x + 4" by (auto simp add: h' x_def split: if_splits)
    then show "\<exists>a s al. (a, s, al) \<in> set (lay h3 [(65536, False)]) \<and> (p = a \<or> p = a + 4)"
      by (auto simp add: x_def)
  qed
  have lay': "lay h' = lay h3" by (simp add: h')
  have La: "classes h' k = (case F3 k of [] \<Rightarrow> 0 | a # r \<Rightarrow> a) \<and> links (mem h') (F3 k) \<and>
        distinct (F3 k) \<and>
        (\<forall>a \<in> set (F3 k). a \<notin> {} \<and>
           (\<exists>s. (a, s, False) \<in> set (lay h' [(65536, False)]) \<and> bucket_of s = k))"
    if k: "k < 7" for k
  proof (cases "k = 6")
    case True
    show ?thesis unfolding True F6 by (simp add: h' x_def links_def b6)
  next
    case False
    then have "F3 k = []" using sub [OF k] by simp
    moreover have "classes h' k = classes h3 k" using False by (simp add: h')
    moreover have "classes h3 k = (case F3 k of [] \<Rightarrow> 0 | a # r \<Rightarrow> a)"
      using L3 k by (simp add: Lists_def)
    ultimately show ?thesis by (simp add: links_def)
  qed
  have Lb: "\<forall>(a, s, al) \<in> set (lay h' [(65536, False)]).
      \<not> al \<longrightarrow> a \<in> {} \<or> a \<in> set (F3 (bucket_of s))"
    using mem6 by (simp add: b6 lay' x_def)
  have "Lists h' [(65536, False)] F3 {}"
    unfolding Lists_def using La Lb by blast
  then show ?thesis using C' by (auto simp add: PInv_def)
qed

lemma mm_malloc_h0: "mm_malloc h0 1000 = Some (4168, h_alloc)"
  by (auto simp add: mm_defs h0_def h_alloc_def fun_eq_iff)

lemma reach_h_alloc: "reach h_alloc {4168}"
proof -
  have "reach h0 {}"
    by (rule reach.init [OF _ _ _ mm_init_fresh]) (simp_all add: fresh_def)
  from reach.malloc [OF this _ mm_malloc_h0] show ?thesis by simp
qed

lemma size_bound: "(sz :: size_t) \<le> 4294967280 \<Longrightarrow> uint sz \<le> 4294967280"
  by (simp add: word_le_def)

lemma reach_PInv:
  assumes "reach h L"
  shows "\<exists>bs F. PInv h bs F {} \<and> noadj bs \<and> allocs h bs = L"
  using assms
proof (induction rule: reach.induct)
  case (init r h)
  from mm_init_PInv [OF init] obtain F where "PInv h [(65536, False)] F {}" by blast
  moreover have "noadj [(65536, False)]" "allocs h [(65536, False)] = {}"
    by (simp_all add: allocs_def)
  ultimately show ?case by blast
next
  case (malloc h L sz p h')
  then obtain bs F where P: "PInv h bs F {}" "noadj bs" "allocs h bs = L" by blast
  from mm_malloc_PInv [OF P(1,2) size_bound [OF malloc(2)] malloc(3)] P(3)
  show ?case by auto
next
  case (free h L p h')
  then obtain bs F where P: "PInv h bs F {}" "noadj bs" "allocs h bs = L" by blast
  from free(2) P(3) obtain s where "(p, s, True) \<in> set (lay h bs)" by (auto simp add: allocs_def)
  from in_layout_split [OF this] obtain pre post where
    bs: "bs = pre @ (s, True) # post" and px: "p = heap_listp h + 8 + totsize pre" by auto
  from mm_free_PInv [OF P(1) [unfolded bs] P(2) [unfolded bs] px] free(3) P(3)
  show ?case unfolding bs by auto
next
  case (realloc h L p sz q h')
  then obtain bs F where P: "PInv h bs F {}" "noadj bs" "allocs h bs = L" by blast
  from realloc(2) P(3) have "p \<in> allocs h bs" by simp
  from mm_realloc_PInv [OF P(1,2) this size_bound [OF realloc(3)] realloc(4)] P(3)
  show ?case by auto
qed

lemma extend_words_int:
  assumes "0 \<le> e" "e mod 8 = 0" "e < 2 ^ 31"
  shows "(ucast (if (word_of_int (e div 4) :: size_t) mod 2 \<noteq> 0
            then ((word_of_int (e div 4) :: size_t) + 1) * 4
            else (word_of_int (e div 4) :: size_t) * 4) :: u32) = word_of_int e"
proof -
  have b: "0 \<le> e div 4" "e div 4 < 2 ^ 32" using assms by simp_all
  have m: "(word_of_int (e div 4) :: size_t) mod 2 = 0"
  proof -
    have "e div 4 mod 2 = 0" using assms(2) by presburger
    moreover have "uint (word_of_int (e div 4) :: size_t) = e div 4"
      using b by (simp add: uint_word_of_int take_bit_int_def)
    ultimately show ?thesis by (simp add: word_mod_def)
  qed
  have t: "(word_of_int (e div 4) :: size_t) * 4 = word_of_int e"
  proof -
    have "e div 4 * 4 = e" using assms(2) by presburger
    then have "(word_of_int (e div 4) :: size_t) * word_of_int 4 = word_of_int e"
      by (simp only: wi_hom_mult)
    then show ?thesis by simp
  qed
  show ?thesis unfolding m t by (simp add: ucast_down)
qed

section \<open>The runs clear of the defects\<close>

text \<open>
  When \<open>asize\<close> and the header words of the class heads are below \<open>2^31\<close>, the fit test
  of \<open>find_fit\<close> is \<open>size \<ge> asize\<close> and \<open>find_fit\<close> returns what the specification's
  search returns: the classes from \<open>bucket_of asize\<close> up to 6 are visited in order, of each
  only the head's header is read, the first head of size at least \<open>asize\<close> is returned,
  and \<open>none\<close> if there is no such head.
\<close>

lemma find_fit_heads_only:
  assumes "class_ok h 0"
    and "\<forall>k<7. classes h k \<noteq> 0 \<longrightarrow>
           word_ok h (classes h k - 4) \<and> uint (mem h (classes h k - 4)) < 2 ^ 31"
    and "uint asize < 2 ^ 31"
  shows "find_fit h asize = Some (find_fit_spec h (uint asize))"
proof -
  have "find_fit h asize = Some (scan_fits h asize [bucket_of (uint asize) ..< 7])"
    using assms(1,2) by (intro find_fit_scan_fits) auto
  moreover have "scan_fits h asize [bucket_of (uint asize) ..< 7]
      = scan_heads h (uint asize) [bucket_of (uint asize) ..< 7]"
    using assms(2,3) by (intro scan_fits_heads) auto
  ultimately show ?thesis by (simp add: find_fit_spec_def)
qed

lemma find_fit_heads_only_witness:
  "find_fit h0 1008 = Some (find_fit_spec h0 (uint (1008 :: size_t))) \<and>
   find_fit_spec h0 (uint (1008 :: size_t)) = 4168"
proof -
  have a: "class_ok h0 0"
    by (simp add: class_ok_def h0_def)
  have b: "\<forall>k<7. classes h0 k \<noteq> 0 \<longrightarrow>
      word_ok h0 (classes h0 k - 4) \<and> uint (mem h0 (classes h0 k - 4)) < 2 ^ 31"
    by (simp add: h0_def word_ok_def)
  have c: "uint (1008 :: size_t) < 2 ^ 31"
    by simp
  show ?thesis
    using find_fit_heads_only [OF a b c]
    by (simp add: find_fit_spec_def bucket_of_def h0_def upt_rec)
qed

text \<open>
  Take the heaps reached from \<open>mm_init\<close> by calls that the model gives a result, the
  region smaller than \<open>2^31\<close> bytes, slot 6 of the class table holding \<open>NULL\<close> when
  \<open>mm_init\<close> runs, \<open>mm_malloc\<close> and \<open>mm_realloc\<close> asked for at most \<open>2^32 - 16\<close>
  bytes, \<open>mm_free\<close> and \<open>mm_realloc\<close> given an address handed out and not yet freed.
  In every such heap the blocks from the prologue to the epilogue are a list in which no
  block and its successor are both free, and the allocated blocks are the addresses
  handed out.  \<open>mm_free\<close> of any of them returns and leaves the list in which the freed
  block has taken in its free neighbours, its size the sum of their sizes, again with no
  two free neighbours.  An extension of the heap by \<open>e\<close> bytes either is refused by
  \<open>mem_sbrk\<close> or leaves the list with a free block of \<open>e\<close> bytes at the end, merged
  with the last block when that was free.
\<close>

lemma reach_no_adjacent_free:
  assumes "reach h L"
  shows "\<exists>bs. Chain h bs \<and> noadj bs \<and> L = allocs h bs \<and>
     (\<forall>p \<in> L. \<exists>pre s post h'. bs = pre @ (s, True) # post \<and>
        p = heap_listp h + 8 + totsize pre \<and> mm_free h p = Some h' \<and>
        Chain h' (merged pre s post) \<and> noadj (merged pre s post)) \<and>
     (\<forall>e. 16 \<le> e \<and> e mod 8 = 0 \<and> e < 2 ^ 31 \<longrightarrow>
        (\<exists>x' h'. extend_heap h (word_of_int (e div 4)) = Some (x', h') \<and>
           (x' = 0 \<and> h' = h \<or>
            x' \<noteq> 0 \<and> Chain h' (merged bs e []) \<and> noadj (merged bs e []))))"
proof -
  from reach_PInv [OF assms] obtain bs F where
    P: "PInv h bs F {}" and n: "noadj bs" and al: "allocs h bs = L" by blast
  have 1: "\<exists>pre s post h'. bs = pre @ (s, True) # post \<and>
        p = heap_listp h + 8 + totsize pre \<and> mm_free h p = Some h' \<and>
        Chain h' (merged pre s post) \<and> noadj (merged pre s post)" if "p \<in> L" for p
  proof -
    from that al obtain s where "(p, s, True) \<in> set (lay h bs)" by (auto simp add: allocs_def)
    from in_layout_split [OF this] obtain pre post where
      bs: "bs = pre @ (s, True) # post" and px: "p = heap_listp h + 8 + totsize pre" by auto
    from mm_free_PInv [OF P [unfolded bs] n [unfolded bs] px] obtain h' F' where
      "mm_free h p = Some h'" "PInv h' (merged pre s post) F' {}" "noadj (merged pre s post)"
      by blast
    then show ?thesis using bs px by (auto simp add: PInv_def)
  qed
  have 2: "\<exists>x' h'. extend_heap h (word_of_int (e div 4)) = Some (x', h') \<and>
           (x' = 0 \<and> h' = h \<or>
            x' \<noteq> 0 \<and> Chain h' (merged bs e []) \<and> noadj (merged bs e []))"
    if e: "16 \<le> e" "e mod 8 = 0" "e < 2 ^ 31" for e
  proof -
    have "0 \<le> e" using e(1) by simp
    from extend_heap_PInv [OF P n e extend_words_int [OF this e(2,3)]]
    show ?thesis by (auto simp add: PInv_def)
  qed
  have C: "Chain h bs" using P by (simp add: PInv_def)
  show ?thesis
  proof (rule exI [of _ bs], intro conjI ballI allI impI)
    show "Chain h bs" by (rule C)
    show "noadj bs" by (rule n)
    show "L = allocs h bs" using al by simp
  next
    fix p assume "p \<in> L"
    then show "\<exists>pre s post h'. bs = pre @ (s, True) # post \<and>
        p = heap_listp h + 8 + totsize pre \<and> mm_free h p = Some h' \<and>
        Chain h' (merged pre s post) \<and> noadj (merged pre s post)" by (rule 1)
  next
    fix e :: int assume "16 \<le> e \<and> e mod 8 = 0 \<and> e < 2 ^ 31"
    then have "16 \<le> e" "e mod 8 = 0" "e < 2 ^ 31" by simp_all
    then show "\<exists>x' h'. extend_heap h (word_of_int (e div 4)) = Some (x', h') \<and>
           (x' = 0 \<and> h' = h \<or>
            x' \<noteq> 0 \<and> Chain h' (merged bs e []) \<and> noadj (merged bs e []))"
      by (rule 2)
  qed
qed

lemma reach_no_adjacent_free_witness:
  "reach h_alloc {4168} \<and>
   (\<exists>bs. Chain h_alloc bs \<and> noadj bs \<and> {4168} = allocs h_alloc bs \<and>
     (\<forall>p \<in> {4168}. \<exists>pre s post h'. bs = pre @ (s, True) # post \<and>
        p = heap_listp h_alloc + 8 + totsize pre \<and> mm_free h_alloc p = Some h' \<and>
        Chain h' (merged pre s post) \<and> noadj (merged pre s post)) \<and>
     (\<forall>e. 16 \<le> e \<and> e mod 8 = 0 \<and> e < 2 ^ 31 \<longrightarrow>
        (\<exists>x' h'. extend_heap h_alloc (word_of_int (e div 4)) = Some (x', h') \<and>
           (x' = 0 \<and> h' = h_alloc \<or>
            x' \<noteq> 0 \<and> Chain h' (merged bs e []) \<and> noadj (merged bs e [])))))"
  using reach_no_adjacent_free [OF reach_h_alloc] reach_h_alloc by simp

text \<open>
  In the same heaps the prologue has the header and the footer word 9, and the blocks
  after it, each found from the one before by \<open>NEXT_BLKP\<close> up to the epilogue, have a
  header word and a footer word that are equal: the size with the allocated bit.
\<close>

lemma reach_header_footer:
  assumes "reach h L"
  shows "GET h (HDRP (heap_listp h)) = Some 9 \<and> FTRP h (heap_listp h) = Some (heap_listp h) \<and>
     GET h (heap_listp h) = Some 9 \<and>
     (\<exists>bs. heap_listp h + 8 + totsize bs = mem_brk h \<and>
        (\<forall>(x, s, al) \<in> set (lay h bs).
           NEXT_BLKP h x = Some (x + s) \<and> FTRP h x = Some (x + s - 8) \<and>
           GET h (HDRP x) = Some (tag s al) \<and> GET h (x + s - 8) = Some (tag s al)))"
proof -
  from reach_PInv [OF assms] obtain bs F where P: "PInv h bs F {}" by blast
  then have C: "Chain h bs" by (simp add: PInv_def)
  note cb = chain_bounds [OF C]
  have st: "static h" and m: "mem h (heap_listp h - 4) = 9" "mem h (heap_listp h) = 9"
    and tot: "heap_listp h + 8 + totsize bs = mem_brk h"
    using C by (simp_all add: Chain_def)
  have "word_ok h (heap_listp h - 4)" "word_ok h (heap_listp h)"
    by (rule word_ok_heap [OF st]; use cb in presburger)+
  then have 1: "GET h (HDRP (heap_listp h)) = Some 9" "GET h (heap_listp h) = Some 9"
    using m by (simp_all add: GET_def HDRP_def)
  have 2: "\<forall>(x, s, al) \<in> set (lay h bs).
           NEXT_BLKP h x = Some (x + s) \<and> FTRP h x = Some (x + s - 8) \<and>
           GET h (HDRP x) = Some (tag s al) \<and> GET h (x + s - 8) = Some (tag s al)"
  proof (intro ball_tripleI)
    fix x s al assume "(x, s, al) \<in> set (lay h bs)"
    from block_reads(1,2,7,8) [OF C this]
    show "NEXT_BLKP h x = Some (x + s) \<and> FTRP h x = Some (x + s - 8) \<and>
           GET h (HDRP x) = Some (tag s al) \<and> GET h (x + s - 8) = Some (tag s al)"
      by (simp add: HDRP_def)
  qed
  show ?thesis using 1 prologue_reads(2) [OF C] tot 2 by blast
qed

lemma reach_header_footer_witness:
  "reach h_alloc {4168} \<and>
   GET h_alloc (HDRP (heap_listp h_alloc)) = Some 9 \<and> FTRP h_alloc (heap_listp h_alloc) = Some (heap_listp h_alloc) \<and>
   GET h_alloc (heap_listp h_alloc) = Some 9 \<and>
   (\<exists>bs. heap_listp h_alloc + 8 + totsize bs = mem_brk h_alloc \<and>
      (\<forall>(x, s, al) \<in> set (lay h_alloc bs).
         NEXT_BLKP h_alloc x = Some (x + s) \<and> FTRP h_alloc x = Some (x + s - 8) \<and>
         GET h_alloc (HDRP x) = Some (tag s al) \<and> GET h_alloc (x + s - 8) = Some (tag s al)))"
  using reach_header_footer [OF reach_h_alloc] reach_h_alloc by simp

section \<open>Claims\<close>

text \<open>
  C1, at a failing input.  After \<open>mm_init\<close>, \<open>mm_malloc(16)\<close> returns the payload 4168
  of a block of 24 bytes, whose payload is 16 bytes long.  \<open>mm_realloc(4168, 4096)\<close> then
  allocates the new block and hands \<open>memcpy\<close> a length of 24, the block size of the old
  block, and not \<open>min(4096, 24 - 8) = 16\<close>.
\<close>

theorem mm_realloc_copies_block_size:
  "\<exists>h1 h2 newp. mm_malloc h0 16 = Some (4168, h1) \<and> GET_SIZE h1 (HDRP 4168) = Some 24 \<and>
     mm_malloc h1 4096 = Some (newp, h2) \<and> newp \<noteq> 0 \<and>
     realloc_copySize h2 4168 4096 = Some 24"
  by (simp add: mm_defs h0_def)

text \<open>
  C2, at a failing input.  \<open>mm_free\<close> has no test for \<open>NULL\<close>: on the heap that
  \<open>mm_init\<close> returns, \<open>mm_free(NULL)\<close> starts by reading the header word at address
  \<open>-4\<close>, outside the region, and so is not a no-op.
\<close>

theorem mm_free_null_faults:
  "mm_init fresh = Some (0, h0) \<and> GET_SIZE h0 (HDRP 0) = None \<and> mm_free h0 0 = None"
  by (simp add: mm_init_fresh) (simp add: mm_defs h0_def)

text \<open>
  C3, at two failing inputs.  On the heap that \<open>mm_init\<close> returns, the extension by
  \<open>min(asize, 65536)\<close> bytes succeeds, and yet \<open>mm_malloc(200000)\<close> returns neither a block
  nor \<open>NULL\<close>: the merged free block has 131072 bytes, \<open>place\<close> writes the footer of a
  block of 200008 bytes past the end of the region.  And \<open>mm_malloc(2^32 - 4)\<close> returns
  the payload of an allocated block of 8 bytes, because \<open>asize\<close> is cut to 32 bits.
\<close>

theorem mm_malloc_large_faults:
  "(\<exists>bp h1. extend_heap h0 (ucast ((65536 :: u32) div 4)) = Some (bp, h1) \<and> bp \<noteq> 0) \<and>
   mm_malloc h0 200000 = None \<and>
   (\<exists>h. mm_malloc h0 4294967292 = Some (4168, h) \<and> GET h (HDRP 4168) = Some (PACK 8 1))"
  by (simp add: mm_defs h0_def)

text \<open>
  C4, at a failing input.  Four blocks of 1008 bytes are allocated at 4168, 5176, 6184 and
  7192; the first and the third are freed, so that class 1 holds 6184 and then 4168.  The
  next \<open>mm_malloc(1000)\<close> takes the head 6184 out of the list: 4168 is the new head, and
  its \<open>pred_offset\<close> is still 2016, not 0.
\<close>

theorem delete_head_keeps_pred:
  "\<exists>h. run_delete_head = Some h \<and> get_class h 1 = Some 4168 \<and> GET_I h 4168 = Some 2016"
  by (simp add: run_delete_head_def mm_defs h0_def)

text \<open>
  C5, at a failing input.  \<open>mm_init\<close> clears the slots 0 to 5 only: when slot 6 of the
  region holds 69696, it still does after the table and the empty heap are set up, which
  is the moment before the heap is extended.
\<close>

theorem mm_init_leaves_slot6:
  "\<exists>h1 h2. mm_init_classes stale = Some (True, h1) \<and> mm_init_heap h1 = Some (True, h2) \<and>
     get_class h2 6 = Some 69696"
  by (simp add: stale_def fresh_def mm_defs)

text \<open>
  C6, at a failing input.  On the heap that \<open>mm_init\<close> returns, \<open>mm_malloc(2147553640)\<close>
  calls \<open>find_fit\<close> with \<open>asize = 2^31 + 70000\<close>, and \<open>find_fit\<close> returns the head 4168
  of class 6, a block of 65536 bytes: the test \<open>(int)(size - asize) \<ge> 0\<close> is the sign of
  the difference cut to 32 bits.  The specification's search returns \<open>none\<close>.  \<open>place\<close>
  then writes a footer far outside the region.
\<close>

theorem find_fit_signed_wrap:
  "find_fit h0 2147553648 = Some 4168 \<and> GET_SIZE h0 (HDRP 4168) = Some 65536 \<and>
   find_fit_spec h0 (uint (2147553648 :: size_t)) = 0 \<and>
   mm_malloc h0 2147553640 = None"
  by (simp add: mm_defs h0_def find_fit_spec_def bucket_of_def upt_rec)

text \<open>
  C7, at a failing input.  \<open>mm_malloc(2^32 - 4)\<close> computes the adjusted size 8 in 32 bits
  and returns a block of 8 bytes.  After \<open>mm_malloc(65520)\<close> and \<open>mm_free\<close> of the
  first block, the block at 4168 is free, its successor in address order is the block at
  4176, and that block's header has the allocated bit clear as well.
\<close>

theorem mm_free_wrapped_block_adjacent_free:
  "run_wrap \<noteq> None \<and> GET_ALLOC (the run_wrap) (HDRP 4168) = Some 0 \<and>
   NEXT_BLKP (the run_wrap) 4168 = Some 4176 \<and> GET_ALLOC (the run_wrap) (HDRP 4176) = Some 0"
  by (simp add: run_wrap_def mm_defs h0_def)

text \<open>
  C8, at a failing input.  After the same calls the block at 4168, of 8 bytes, has the header
  word 8 and the footer word 0; the footer is where the free list keeps \<open>pred_offset\<close>.
\<close>

theorem mm_free_wrapped_block_footer:
  "run_wrap \<noteq> None \<and> GET (the run_wrap) (HDRP 4168) = Some 8 \<and>
   FTRP (the run_wrap) 4168 = Some 4168 \<and> GET (the run_wrap) 4168 = Some 0"
  by (simp add: run_wrap_def mm_defs h0_def)

text \<open>
  C9.  \<open>append_to_class\<close> puts the block at the head of the class of its size: the class
  slot holds the block, the block's \<open>pred_offset\<close> is 0, its \<open>succ_offset\<close> is the
  distance to the old head (0 when the class was empty), and the old head's
  \<open>pred_offset\<close> is the distance back.  The block and the old head are payload addresses
  (doubleword aligned, inside the region, less than \<open>2^31\<close> apart).  Consequently, after
  ten allocations of 1000 bytes and the blocks 0, 2, 4, 6 and 8 freed in that order,
  class 1 lists the blocks 8, 6, 4, 2, 0.
\<close>

theorem append_to_class_lifo:
  "(\<forall>h bp sz. class_ok h 0 \<and> bp mod 8 = 0 \<and> word_ok h bp \<and> word_ok h (bp + 4) \<and>
       (classes h (bucket_of sz) \<noteq> 0 \<longrightarrow>
          classes h (bucket_of sz) mod 8 = 0 \<and> word_ok h (classes h (bucket_of sz)) \<and>
          \<bar>classes h (bucket_of sz) - bp\<bar> < 2 ^ 31) \<longrightarrow>
     (\<exists>h'. append_to_class h bp sz = Some h' \<and> get_class h' (bucket_of sz) = Some bp \<and>
        GET_I h' bp = Some 0 \<and>
        GET_I h' (bp + 4) =
          Some (if classes h (bucket_of sz) = 0 then 0 else classes h (bucket_of sz) - bp) \<and>
        (classes h (bucket_of sz) \<noteq> 0 \<longrightarrow>
           GET_I h' (classes h (bucket_of sz)) = Some (bp - classes h (bucket_of sz))))) \<and>
   (\<exists>h. run_lifo = Some ([4168, 5176, 6184, 7192, 8200, 9208, 10216, 11224, 12232, 13240], h) \<and>
     get_class h 1 = Some 12232 \<and> SUCC h 12232 = Some 10216 \<and> SUCC h 10216 = Some 8200 \<and>
     SUCC h 8200 = Some 6184 \<and> SUCC h 6184 = Some 4168 \<and> GET_I h (4168 + 4) = Some 0 \<and>
     PRED h 4168 = Some 6184 \<and> PRED h 6184 = Some 8200 \<and> PRED h 8200 = Some 10216 \<and>
     PRED h 10216 = Some 12232 \<and> GET_I h 12232 = Some 0)"
proof (intro conjI allI impI)
  fix h bp sz
  assume a: "class_ok h 0 \<and> bp mod 8 = 0 \<and> word_ok h bp \<and> word_ok h (bp + 4) \<and>
       (classes h (bucket_of sz) \<noteq> 0 \<longrightarrow>
          classes h (bucket_of sz) mod 8 = 0 \<and> word_ok h (classes h (bucket_of sz)) \<and>
          \<bar>classes h (bucket_of sz) - bp\<bar> < 2 ^ 31)"
  then have "class_ok h (bucket_of sz)"
    using bucket_of_lt7 [of sz] by (simp add: class_ok_def)
  with a show "\<exists>h'. append_to_class h bp sz = Some h' \<and> get_class h' (bucket_of sz) = Some bp \<and>
        GET_I h' bp = Some 0 \<and>
        GET_I h' (bp + 4) =
          Some (if classes h (bucket_of sz) = 0 then 0 else classes h (bucket_of sz) - bp) \<and>
        (classes h (bucket_of sz) \<noteq> 0 \<longrightarrow>
           GET_I h' (classes h (bucket_of sz)) = Some (bp - classes h (bucket_of sz)))"
    unfolding append_to_class_in by (intro append_in_lifo) auto
next
  show "\<exists>h. run_lifo = Some ([4168, 5176, 6184, 7192, 8200, 9208, 10216, 11224, 12232, 13240], h) \<and>
     get_class h 1 = Some 12232 \<and> SUCC h 12232 = Some 10216 \<and> SUCC h 10216 = Some 8200 \<and>
     SUCC h 8200 = Some 6184 \<and> SUCC h 6184 = Some 4168 \<and> GET_I h (4168 + 4) = Some 0 \<and>
     PRED h 4168 = Some 6184 \<and> PRED h 6184 = Some 8200 \<and> PRED h 8200 = Some 10216 \<and>
     PRED h 10216 = Some 12232 \<and> GET_I h 12232 = Some 0"
    by (rule run_lifo_result)
qed

theorem append_to_class_lifo_witness:
  "\<exists>h'. append_to_class h0 8264 20000 = Some h' \<and> get_class h' 6 = Some 8264 \<and>
     GET_I h' 8264 = Some 0 \<and> GET_I h' 8268 = Some (- 4096) \<and> GET_I h' 4168 = Some 4096"
  using append_to_class_lifo [THEN conjunct1, rule_format, of h0 8264 20000]
  by (simp add: bucket_of_def h0_def class_ok_def word_ok_def)

text \<open>
  C10, at a failing input.  \<open>mm_init\<close> reads slot 6 (in \<open>append_to_class\<close>, during the
  first extension) before it stores anything there, so what the slot holds is what the
  host left in the region.  When that is the address of the first block's header,
  \<open>mm_init\<close> returns 0 and the block in class 6 has size 0 and is its own next neighbour.
  When it is 69696, a payload address of an earlier use of the region, the block in class
  6 has the header word 65536 and the footer word \<open>-65528\<close>.
\<close>

theorem mm_init_clobbers_header:
  "mm_init clobber \<noteq> None \<and> fst (the (mm_init clobber)) = 0 \<and>
   get_class (snd (the (mm_init clobber))) 6 = Some 4168 \<and>
   GET_SIZE (snd (the (mm_init clobber))) (HDRP 4168) = Some 0 \<and>
   NEXT_BLKP (snd (the (mm_init clobber))) 4168 = Some 4168 \<and>
   mm_init stale \<noteq> None \<and> fst (the (mm_init stale)) = 0 \<and>
   get_class (snd (the (mm_init stale))) 6 = Some 4168 \<and>
   GET (snd (the (mm_init stale))) (HDRP 4168) = Some 65536 \<and>
   FTRP (snd (the (mm_init stale))) 4168 = Some 69696 \<and>
   GET (snd (the (mm_init stale))) 69696 = Some (- 65528)"
  by (simp add: clobber_def stale_def fresh_def mm_defs)

end
